theory Spec2Isabelle
  imports Main "HOL-Library.Multiset"
begin

section \<open>Go strings, runes and UTF-8\<close>

text \<open>
  A Go string is a sequence of bytes, modelled as \<^typ>\<open>string\<close> (one \<^typ>\<open>char\<close> per
  byte). A rune is a Unicode code point, modelled as a natural number. The regular
  expression library reads both the expression and the text it matches rune by rune,
  so the UTF-8 decoder of package \<^verbatim>\<open>unicode/utf8\<close> is part of the model.
\<close>

type_synonym rune = nat

abbreviation backslash :: char where
  "backslash \<equiv> CHR 0x5C"

definition RuneError :: rune where
  "RuneError = 0xFFFD"

definition byte :: "char \<Rightarrow> nat" where
  "byte c = of_char c"

text \<open>
  \<^verbatim>\<open>utf8.first\<close>: the length of the sequence a byte leads; 1 for ASCII, 0 for a byte that
  leads nothing. \<^verbatim>\<open>utf8.acceptRanges\<close>: the range allowed for the second byte.
\<close>

definition seq_size :: "nat \<Rightarrow> nat" where
  "seq_size b =
     (if b < 0x80 then 1 else if b < 0xC2 then 0 else if b < 0xE0 then 2
      else if b < 0xF0 then 3 else if b < 0xF5 then 4 else 0)"

definition accept_lo :: "nat \<Rightarrow> nat" where
  "accept_lo b = (if b = 0xE0 then 0xA0 else if b = 0xF0 then 0x90 else 0x80)"

definition accept_hi :: "nat \<Rightarrow> nat" where
  "accept_hi b = (if b = 0xED then 0x9F else if b = 0xF4 then 0x8F else 0xBF)"

definition continuation :: "nat \<Rightarrow> bool" where
  "continuation b = (0x80 \<le> b \<and> b \<le> 0xBF)"

text \<open>\<^verbatim>\<open>utf8.DecodeRuneInString\<close>: the first rune of the string and its width in bytes;
  \<open>decode_multi\<close> is its part for a sequence of two to four bytes that is long enough.\<close>

definition decode_multi :: "nat \<Rightarrow> nat \<Rightarrow> string \<Rightarrow> rune \<times> nat" where
  "decode_multi s0 sz r =
     (let s1 = byte (r ! 0) in
      if s1 < accept_lo s0 \<or> accept_hi s0 < s1 then (RuneError, 1)
      else if sz \<le> 2 then ((s0 mod 32) * 64 + s1 mod 64, 2)
      else
        let s2 = byte (r ! 1) in
        if \<not> continuation s2 then (RuneError, 1)
        else if sz \<le> 3 then ((s0 mod 16) * 4096 + (s1 mod 64) * 64 + s2 mod 64, 3)
        else
          let s3 = byte (r ! 2) in
          if \<not> continuation s3 then (RuneError, 1)
          else ((s0 mod 8) * 262144 + (s1 mod 64) * 4096 + (s2 mod 64) * 64 + s3 mod 64, 4))"

fun DecodeRuneInString :: "string \<Rightarrow> rune \<times> nat" where
  "DecodeRuneInString [] = (RuneError, 0)"
| "DecodeRuneInString (c0 # r) =
     (let s0 = byte c0; sz = seq_size s0 in
      if sz = 1 then (s0, 1)
      else if sz = 0 then (RuneError, 1)
      else if length r + 1 < sz then (RuneError, 1)
      else decode_multi s0 sz r)"

lemma seq_size_cases: "seq_size b \<in> {0, 1, 2, 3, 4}"
  by (simp add: seq_size_def)

lemma decode_multi_width:
  "sz \<in> {2, 3, 4} \<Longrightarrow> snd (decode_multi s0 sz r) = 1 \<or> snd (decode_multi s0 sz r) = sz"
  by (auto simp: decode_multi_def Let_def)

lemma DecodeRuneInString_width:
  assumes "s \<noteq> []"
  shows "0 < snd (DecodeRuneInString s) \<and> snd (DecodeRuneInString s) \<le> length s"
proof (cases s)
  case Nil
  with assms show ?thesis by simp
next
  case (Cons c0 r)
  consider "seq_size (byte c0) = 0" | "seq_size (byte c0) = 1"
    | "seq_size (byte c0) \<in> {2, 3, 4}"
    using seq_size_cases [of "byte c0"] by auto
  then show ?thesis
  proof cases
    case 1
    then show ?thesis using Cons by simp
  next
    case 2
    then show ?thesis using Cons by simp
  next
    case 3
    then show ?thesis
      using Cons decode_multi_width [OF 3, of "byte c0" r]
      by (auto simp: Let_def Suc_le_eq)
  qed
qed

text \<open>The runes of a string, as \<^verbatim>\<open>for _, r := range s\<close> reads them: an invalid byte is
  read as \<^const>\<open>RuneError\<close> of width one.\<close>

function runes_of :: "string \<Rightarrow> rune list" where
  "runes_of s =
     (if s = [] then []
      else fst (DecodeRuneInString s) # runes_of (drop (snd (DecodeRuneInString s)) s))"
  by pat_completeness auto
termination
proof (relation "measure length")
  show "wf (measure length)" by simp
next
  fix s :: string
  assume "s \<noteq> []"
  then show "(drop (snd (DecodeRuneInString s)) s, s) \<in> measure length"
    using DecodeRuneInString_width [of s] by simp
qed

declare runes_of.simps [simp del]

text \<open>\<^verbatim>\<open>utf8.ValidString\<close>: every rune of the string decodes without error.\<close>

function ValidString :: "string \<Rightarrow> bool" where
  "ValidString s =
     (if s = [] then True
      else if DecodeRuneInString s = (RuneError, 1) then False
      else ValidString (drop (snd (DecodeRuneInString s)) s))"
  by pat_completeness auto
termination
proof (relation "measure length")
  show "wf (measure length)" by simp
next
  fix s :: string
  assume "s \<noteq> []"
  then show "(drop (snd (DecodeRuneInString s)) s, s) \<in> measure length"
    using DecodeRuneInString_width [of s] by simp
qed

declare ValidString.simps [simp del]

section \<open>Package strings\<close>

definition HasPrefix :: "string \<Rightarrow> string \<Rightarrow> bool" where
  "HasPrefix s p = (take (length p) s = p)"

text \<open>
  \<^verbatim>\<open>strings.ReplaceAll\<close>: the non-overlapping instances of \<open>old\<close> are replaced from the
  left. An empty \<open>old\<close> matches at the beginning of the string and after each UTF-8
  sequence.
\<close>

function ReplaceAll :: "string \<Rightarrow> string \<Rightarrow> string \<Rightarrow> string" where
  "ReplaceAll s old new =
     (if old = [] then
        new @ (if s = [] then []
               else take (snd (DecodeRuneInString s)) s
                    @ ReplaceAll (drop (snd (DecodeRuneInString s)) s) old new)
      else if s = [] then []
      else if HasPrefix s old then new @ ReplaceAll (drop (length old) s) old new
      else hd s # ReplaceAll (tl s) old new)"
  by pat_completeness auto
termination
proof (relation "measure (\<lambda>(s, old, new). length s)")
  show "wf (measure (\<lambda>(s :: string, old :: string, new :: string). length s))" by simp
next
  fix s old new :: string
  assume "s \<noteq> []"
  then show "((drop (snd (DecodeRuneInString s)) s, old, new), s, old, new)
      \<in> measure (\<lambda>(s, old, new). length s)"
    using DecodeRuneInString_width [of s] by simp
next
  fix s old new :: string
  assume "old \<noteq> []" "s \<noteq> []"
  then show "((drop (length old) s, old, new), s, old, new)
      \<in> measure (\<lambda>(s, old, new). length s)"
    by simp
next
  fix s old new :: string
  assume "s \<noteq> []"
  then show "((tl s, old, new), s, old, new) \<in> measure (\<lambda>(s, old, new). length s)"
    by (cases s) simp_all
qed

declare ReplaceAll.simps [simp del]

section \<open>Package path/filepath (Unix: the separator is the slash)\<close>

text \<open>
  The program runs in a Linux container, where \<^verbatim>\<open>filepath.Separator\<close> is the slash,
  \<^verbatim>\<open>filepath.ToSlash\<close> returns its argument and a path has no volume name.
\<close>

definition ToSlash :: "string \<Rightarrow> string" where
  "ToSlash path = path"

text \<open>The elements of a path: the pieces between slashes, empty ones included.\<close>

fun split_sep :: "string \<Rightarrow> string list" where
  "split_sep [] = [[]]"
| "split_sep (c # s) =
     (if c = CHR ''/'' then [] # split_sep s
      else (case split_sep s of [] \<Rightarrow> [[c]] | e # es \<Rightarrow> (c # e) # es))"

fun join_sep :: "string list \<Rightarrow> string" where
  "join_sep [] = []"
| "join_sep [e] = e"
| "join_sep (e # es) = e @ CHR ''/'' # join_sep es"

text \<open>
  The loop of \<^verbatim>\<open>filepath.Clean\<close>, element by element. \<open>out\<close> holds the elements written
  so far, the last one first. An empty element and \<open>.\<close> are skipped; \<open>..\<close> removes the
  last element written when there is one that is not itself \<open>..\<close>, is dropped at the
  root, and is kept otherwise.
\<close>

fun clean_elems :: "bool \<Rightarrow> string list \<Rightarrow> string list \<Rightarrow> string list" where
  "clean_elems rooted out [] = rev out"
| "clean_elems rooted out (e # es) =
     (if e = [] \<or> e = ''.'' then clean_elems rooted out es
      else if e = ''..'' then
        (case out of
           [] \<Rightarrow> if rooted then clean_elems rooted [] es else clean_elems rooted [''..''] es
         | x # out' \<Rightarrow>
             if x \<noteq> ''..'' then clean_elems rooted out' es
             else clean_elems rooted (''..'' # out) es)
      else clean_elems rooted (e # out) es)"

definition Clean :: "string \<Rightarrow> string" where
  "Clean path =
     (case path of
        [] \<Rightarrow> ''.''
      | c # rest \<Rightarrow>
          if c = CHR ''/'' then CHR ''/'' # join_sep (clean_elems True [] (split_sep rest))
          else
            let out = join_sep (clean_elems False [] (split_sep path))
            in if out = [] then ''.'' else out)"

text \<open>\<^verbatim>\<open>filepath.Join\<close> of two elements: the empty ones are ignored and the result is
  cleaned.\<close>

definition Join :: "string \<Rightarrow> string \<Rightarrow> string" where
  "Join a b =
     (if a \<noteq> [] then Clean (a @ CHR ''/'' # b)
      else if b \<noteq> [] then Clean b
      else [])"

section \<open>Errors\<close>

text \<open>
  The errors the program can meet. The first group are the parse errors of
  \<^verbatim>\<open>regexp/syntax\<close> (\<open>ErrLarge\<close> is \<^verbatim>\<open>expression too large\<close>); \<open>ErrUnsupported\<close> marks an
  expression outside the part of the syntax that is modelled (see below). \<open>RelError\<close>
  is the error of \<^verbatim>\<open>filepath.Rel\<close>, \<open>WatchError\<close> one of the file system watcher, and
  \<open>PanicNilDereference\<close> and
  \<open>PanicNonPositiveInterval\<close> are run-time panics, which unwind through every caller.
\<close>

datatype error =
    ErrInvalidUTF8
  | ErrMissingRepeatArgument
  | ErrInvalidRepeatOp
  | ErrTrailingBackslash
  | ErrInvalidEscape
  | ErrMissingBracket
  | ErrLarge
  | ErrUnsupported
  | RelError
  | WatchError string
  | PanicNilDereference
  | PanicNonPositiveInterval

text \<open>
  \<^verbatim>\<open>filepath.Rel\<close>: both paths are cleaned; equal paths give \<open>.\<close>; a rooted and an
  unrooted path give an error; otherwise the common leading elements are dropped, and
  the result climbs with one \<open>..\<close> for each element left of the base, which is an error
  when the first of them is itself \<open>..\<close>, and then descends the elements left of the
  target.
\<close>

fun strip_common :: "string list \<Rightarrow> string list \<Rightarrow> string list \<times> string list" where
  "strip_common (b # bs) (t # ts) =
     (if b = t then strip_common bs ts else (b # bs, t # ts))"
| "strip_common bs ts = (bs, ts)"

definition elements :: "string \<Rightarrow> string list" where
  "elements p = filter (\<lambda>e. e \<noteq> []) (split_sep p)"

definition Rel :: "string \<Rightarrow> string \<Rightarrow> error + string" where
  "Rel basepath targpath =
     (let base = Clean basepath; targ = Clean targpath in
      if targ = base then Inr ''.''
      else if (take 1 base = ''/'') \<noteq> (take 1 targ = ''/'') then Inl RelError
      else
        (case strip_common (if base = ''.'' then [] else elements base) (elements targ) of
           (bs, ts) \<Rightarrow>
             if take 1 bs = [''..''] then Inl RelError
             else Inr (join_sep (map (\<lambda>b. ''..'') bs @ ts))))"

section \<open>Package regexp\<close>

text \<open>
  \<^verbatim>\<open>regexp.QuoteMeta\<close>: a backslash goes before each of the bytes \<^verbatim>\<open>\.+*?()|[]{}^$\<close>.
\<close>

definition special :: "char \<Rightarrow> bool" where
  "special c = (c = backslash \<or> c \<in> set ''.+*?()|[]{}^$'')"

fun QuoteMeta :: "string \<Rightarrow> string" where
  "QuoteMeta [] = []"
| "QuoteMeta (c # s) = (if special c then backslash # c # QuoteMeta s else c # QuoteMeta s)"

text \<open>
  The expressions that \<open>globToRegex\<close> writes use a small part of the syntax of
  \<^verbatim>\<open>regexp/syntax\<close>, and the model parses that part: the anchors \<^verbatim>\<open>^\<close> and \<^verbatim>\<open>$\<close> (the
  beginning and the end of the text, as the flags of \<^verbatim>\<open>regexp.Compile\<close> have it), the dot
  (any rune but the newline), a literal rune, a backslash before an ASCII punctuation
  rune, a bracket class of plain runes, possibly negated (it matches the newline), and
  the star after one of these. The model answers \<open>ErrUnsupported\<close> on the rest
  (groups, alternation, the other repetitions, classes with ranges or escapes, the
  escapes of letters and digits), some of which the library accepts.
\<close>

datatype atom =
    Lit rune
  | AnyCharNotNL
  | CharClass bool "rune list"

datatype node =
    BeginText
  | EndText
  | Single atom
  | Star atom

definition isalnum :: "rune \<Rightarrow> bool" where
  "isalnum c = ((48 \<le> c \<and> c \<le> 57) \<or> (65 \<le> c \<and> c \<le> 90) \<or> (97 \<le> c \<and> c \<le> 122))"

text \<open>\<^verbatim>\<open>nextRune\<close> of the parser: the first rune and the rest, or the error of a byte that
  is no UTF-8.\<close>

definition nextRune :: "string \<Rightarrow> error + rune \<times> string" where
  "nextRune s =
     (case DecodeRuneInString s of
        (c, n) \<Rightarrow>
          if c = RuneError \<and> n = 1 then Inl ErrInvalidUTF8 else Inr (c, drop n s))"

lemma nextRune_shorter:
  assumes "nextRune s = Inr (c, t)" and "s \<noteq> []"
  shows "length t < length s"
proof -
  obtain r n where d: "DecodeRuneInString s = (r, n)"
    by (cases "DecodeRuneInString s")
  with assms(1) have "t = drop n s"
    by (simp add: nextRune_def split: if_splits)
  moreover have "0 < n"
    using DecodeRuneInString_width [OF assms(2)] d by simp
  ultimately show ?thesis using assms(2) by simp
qed

text \<open>
  The body of a bracket class, after the opening bracket and the optional \<^verbatim>\<open>^\<close>: plain
  runes up to the closing bracket. \<open>first\<close> says that no rune of the class has been
  read yet (a closing bracket is then a literal in the library, which the model leaves
  out).
\<close>

function parseClass :: "bool \<Rightarrow> rune list \<Rightarrow> string \<Rightarrow> error + (rune list \<times> string)" where
  "parseClass first acc s =
     (if s = [] then Inl ErrMissingBracket
      else if hd s = CHR '']'' then (if first then Inl ErrUnsupported else Inr (rev acc, tl s))
      else if hd s = backslash \<or> hd s = CHR ''['' \<or> hd s = CHR ''-'' then Inl ErrUnsupported
      else
        (case nextRune s of
           Inl e \<Rightarrow> Inl e
         | Inr (c, t) \<Rightarrow>
             if t \<noteq> [] \<and> hd t = CHR ''-'' then Inl ErrUnsupported
             else parseClass False (c # acc) t))"
  by pat_completeness auto
termination
proof (relation "measure (\<lambda>(first, acc, s). length s)")
  show "wf (measure (\<lambda>(first :: bool, acc :: rune list, s :: string). length s))" by simp
next
  fix first :: bool and acc :: "rune list" and s :: string and x :: "rune \<times> string"
    and c :: rune and t :: string
  assume "s \<noteq> []" and "nextRune s = Inr x" and "(c, t) = x"
  then show "((False, c # acc, t), first, acc, s) \<in> measure (\<lambda>(first, acc, s). length s)"
    using nextRune_shorter [of s c t] by simp
qed

declare parseClass.simps [simp del]

lemma parseClass_shorter:
  "parseClass first acc s = Inr (rs, t) \<Longrightarrow> length t \<le> length s"
proof (induction first acc s rule: parseClass.induct)
  case (1 first acc s)
  show ?case
  proof (cases "s = [] \<or> hd s = CHR '']'' \<or> hd s = backslash \<or> hd s = CHR ''['' \<or> hd s = CHR ''-''")
    case True
    with "1.prems" show ?thesis
      by (auto simp: parseClass.simps [of first acc s] split: if_splits)
  next
    case False
    then obtain c u where n: "nextRune s = Inr (c, u)"
      using "1.prems" by (auto simp: parseClass.simps [of first acc s] split: sum.splits)
    with False "1.prems" have rec: "parseClass False (c # acc) u = Inr (rs, t)"
      by (auto simp: parseClass.simps [of first acc s] split: if_splits)
    have "\<not> (u \<noteq> [] \<and> hd u = CHR ''-'')"
      using False "1.prems" n by (auto simp: parseClass.simps [of first acc s] split: if_splits)
    with False n rec have "length t \<le> length u"
      using "1.IH" [of "(c, u)" c u] by auto
    moreover have "length u < length s"
      using nextRune_shorter [OF n] False by simp
    ultimately show ?thesis by simp
  qed
qed

text \<open>
  The parser's loop. \<open>stk\<close> is its stack, the last node first. A star applies to the
  node on top of the stack: with an empty stack the library answers \<^verbatim>\<open>missing argument
  to repetition operator\<close>, and on a star it answers \<^verbatim>\<open>invalid nested repetition
  operator\<close>.
\<close>

function parse_loop :: "node list \<Rightarrow> string \<Rightarrow> error + node list" where
  "parse_loop stk [] = Inr (rev stk)"
| "parse_loop stk (c # t) =
     (if c = CHR ''^'' then parse_loop (BeginText # stk) t
      else if c = CHR ''$'' then parse_loop (EndText # stk) t
      else if c = CHR ''.'' then parse_loop (Single AnyCharNotNL # stk) t
      else if c = CHR ''*'' then
        (case stk of
           [] \<Rightarrow> Inl ErrMissingRepeatArgument
         | Single a # stk' \<Rightarrow> parse_loop (Star a # stk') t
         | Star a # stk' \<Rightarrow> Inl ErrInvalidRepeatOp
         | _ # stk' \<Rightarrow> Inl ErrUnsupported)
      else if c = backslash then
        (if t = [] then Inl ErrTrailingBackslash
         else
           (case nextRune t of
              Inl e \<Rightarrow> Inl e
            | Inr (r, t') \<Rightarrow>
                if 128 \<le> r then Inl ErrInvalidEscape
                else if isalnum r then Inl ErrUnsupported
                else parse_loop (Single (Lit r) # stk) t'))
      else if c = CHR ''['' then
        (case (if t \<noteq> [] \<and> hd t = CHR ''^'' then parseClass True [] (tl t)
               else parseClass True [] t) of
           Inl e \<Rightarrow> Inl e
         | Inr (rs, t') \<Rightarrow>
             parse_loop (Single (CharClass (t \<noteq> [] \<and> hd t = CHR ''^'') rs) # stk) t')
      else if c \<in> set ''+?()|{'' then Inl ErrUnsupported
      else
        (case nextRune (c # t) of
           Inl e \<Rightarrow> Inl e
         | Inr (r, t') \<Rightarrow> parse_loop (Single (Lit r) # stk) t'))"
  by pat_completeness auto
termination
proof (relation "measure (\<lambda>(stk, s). length s)")
  show "wf (measure (\<lambda>(stk :: node list, s :: string). length s))" by simp
next
  fix stk :: "node list" and c :: char and t :: string
  show "((BeginText # stk, t), stk, c # t) \<in> measure (\<lambda>(stk, s). length s)" by simp
next
  fix stk :: "node list" and c :: char and t :: string
  show "((EndText # stk, t), stk, c # t) \<in> measure (\<lambda>(stk, s). length s)" by simp
next
  fix stk :: "node list" and c :: char and t :: string
  show "((Single AnyCharNotNL # stk, t), stk, c # t) \<in> measure (\<lambda>(stk, s). length s)" by simp
next
  fix stk stk' :: "node list" and c :: char and t :: string and a :: atom
  show "((Star a # stk', t), stk, c # t) \<in> measure (\<lambda>(stk, s). length s)" by simp
next
  fix stk :: "node list" and c :: char and t t' :: string and x :: "rune \<times> string" and r :: rune
  assume "t \<noteq> []" and "nextRune t = Inr x" and "(r, t') = x"
  then show "((Single (Lit r) # stk, t'), stk, c # t) \<in> measure (\<lambda>(stk, s). length s)"
    using nextRune_shorter [of t r t'] by simp
next
  fix stk :: "node list" and c :: char and t t' :: string and x :: "rune list \<times> string"
    and rs :: "rune list"
  assume "(if t \<noteq> [] \<and> hd t = CHR ''^'' then parseClass True [] (tl t)
           else parseClass True [] t) = Inr x" and "(rs, t') = x"
  then have "length t' \<le> length t"
    using parseClass_shorter [of True "[]" "tl t" rs t'] parseClass_shorter [of True "[]" t rs t']
    by (auto split: if_splits)
  then show "((Single (CharClass (t \<noteq> [] \<and> hd t = CHR ''^'') rs) # stk, t'), stk, c # t)
      \<in> measure (\<lambda>(stk, s). length s)"
    by simp
next
  fix stk :: "node list" and c :: char and t t' :: string and x :: "rune \<times> string" and r :: rune
  assume "nextRune (c # t) = Inr x" and "(r, t') = x"
  then show "((Single (Lit r) # stk, t'), stk, c # t) \<in> measure (\<lambda>(stk, s). length s)"
    using nextRune_shorter [of "c # t" r t'] by simp
qed

declare parse_loop.simps(2) [simp del]

text \<open>A compiled expression: its source text, which \<^verbatim>\<open>String\<close> returns, and its nodes.\<close>

record Regexp =
  expr :: string
  prog :: "node list"

text \<open>
  The library refuses an expression that is too large (\<^verbatim>\<open>expression too large\<close>). While it
  parses, it counts the runes it has read into literals and classes against \<^verbatim>\<open>maxRunes\<close>
  (\<^verbatim>\<open>128<<20 / 4\<close>), and once it has built \<^verbatim>\<open>maxSize\<close> (\<^verbatim>\<open>128<<20 / 40\<close> = 3355443) nodes
  it estimates the size of the program against \<^verbatim>\<open>maxSize\<close>. The model has the part of this
  check that needs none of the parser's bookkeeping: an expression with more than
  \<^verbatim>\<open>maxRunes\<close> literal runes is refused. Which other expressions are refused is a
  parameter, \<open>too_large\<close>, of which the model fixes that it refuses no expression of at
  most 1000000 bytes: in the part of the syntax modelled here an expression of \<open>n\<close>
  bytes makes the parser build at most \<open>n + 2\<close> nodes and count at most \<open>2 * n\<close> runes,
  far below both limits. The library raises the error while it parses; the model
  answers a parse error first, so for an expression that is both faulty and too large
  the two may answer different errors.
\<close>

type_synonym size_check = "string \<Rightarrow> bool"

definition maxRunes :: nat where
  "maxRunes = 33554432"

fun literal_runes :: "node list \<Rightarrow> nat" where
  "literal_runes [] = 0"
| "literal_runes (Single (Lit r) # ns) = Suc (literal_runes ns)"
| "literal_runes (Star (Lit r) # ns) = Suc (literal_runes ns)"
| "literal_runes (n # ns) = literal_runes ns"

definition refused :: "size_check \<Rightarrow> string \<Rightarrow> bool" where
  "refused too_large e =
     (1000000 < length e \<and>
      (too_large e
       \<or> (case parse_loop [] e of Inl err \<Rightarrow> False | Inr ns \<Rightarrow> maxRunes < literal_runes ns)))"

definition regexp_Compile :: "size_check \<Rightarrow> string \<Rightarrow> error + Regexp" where
  "regexp_Compile too_large e =
     (case parse_loop [] e of
        Inl err \<Rightarrow> Inl err
      | Inr ns \<Rightarrow> if refused too_large e then Inl ErrLarge else Inr \<lparr>expr = e, prog = ns\<rparr>)"

definition String :: "Regexp \<Rightarrow> string" where
  "String re = expr re"

fun atom_ok :: "atom \<Rightarrow> rune \<Rightarrow> bool" where
  "atom_ok (Lit r) c = (c = r)"
| "atom_ok AnyCharNotNL c = (c \<noteq> 10)"
| "atom_ok (CharClass neg rs) c = (if neg then c \<notin> set rs else c \<in> set rs)"

text \<open>
  \<open>match_here ns b cs\<close>: the nodes \<open>ns\<close> match a prefix of the runes \<open>cs\<close>; \<open>b\<close> says
  that \<open>cs\<close> is the whole text (no rune of it lies before). \<open>search\<close> tries every
  starting point, since \<^verbatim>\<open>MatchString\<close> reports a match anywhere in the text.
\<close>

fun match_here :: "node list \<Rightarrow> bool \<Rightarrow> rune list \<Rightarrow> bool" where
  "match_here [] b cs = True"
| "match_here (BeginText # k) b cs = (b \<and> match_here k b cs)"
| "match_here (EndText # k) b cs = (cs = [] \<and> match_here k b cs)"
| "match_here (Single a # k) b [] = False"
| "match_here (Single a # k) b (c # cs) = (atom_ok a c \<and> match_here k False cs)"
| "match_here (Star a # k) b [] = match_here k b []"
| "match_here (Star a # k) b (c # cs) =
     (match_here k b (c # cs) \<or> (atom_ok a c \<and> match_here (Star a # k) False cs))"

fun search :: "node list \<Rightarrow> bool \<Rightarrow> rune list \<Rightarrow> bool" where
  "search ns b [] = match_here ns b []"
| "search ns b (c # cs) = (match_here ns b (c # cs) \<or> search ns False cs)"

definition MatchString :: "Regexp \<Rightarrow> string \<Rightarrow> bool" where
  "MatchString re s = search (prog re) True (runes_of s)"

section \<open>Package ignore\<close>

definition globToRegex :: "string \<Rightarrow> string" where
  "globToRegex glob =
     (let re = QuoteMeta glob;
          re = ReplaceAll re [backslash, CHR ''*'', backslash, CHR ''*''] ''.*'';
          re = ReplaceAll re [backslash, CHR ''*''] ''[^/]*'';
          re = ReplaceAll re [backslash, CHR ''?''] ''.''
      in ''^'' @ re @ ''$'')"

text \<open>The loop of \<open>Compile\<close>; \<open>res\<close> is the slice built so far. \<open>root\<close> is not used.
  \<open>too_large\<close> is the size check of the regexp library, which \<open>regexp_Compile\<close> is
  given.\<close>

fun Compile_loop :: "size_check \<Rightarrow> Regexp list \<Rightarrow> string list \<Rightarrow> error + Regexp list" where
  "Compile_loop too_large res [] = Inr res"
| "Compile_loop too_large res (g # gs) =
     (let p = ToSlash (Clean g) in
      case regexp_Compile too_large (globToRegex p) of
        Inl err \<Rightarrow> Inl err
      | Inr re \<Rightarrow> Compile_loop too_large (res @ [re]) gs)"

definition Compile :: "size_check \<Rightarrow> string \<Rightarrow> string list \<Rightarrow> error + Regexp list" where
  "Compile too_large root patterns = Compile_loop too_large [] patterns"

fun Match :: "string \<Rightarrow> Regexp list \<Rightarrow> bool" where
  "Match rel [] = False"
| "Match rel (re # regexes) = (if MatchString re rel then True else Match rel regexes)"

text \<open>
  \<open>Match\<close> after \<open>Compile\<close>, as \<open>newRuleRunner\<close> and \<open>handleEvent\<close> combine them: whether
  the patterns of a rule ignore a relative path, or \<open>None\<close> when they do not compile.
  \<open>compile_one\<close> is the body of the loop of \<open>Compile\<close> for one pattern.
\<close>

definition ignored :: "size_check \<Rightarrow> string \<Rightarrow> string list \<Rightarrow> string \<Rightarrow> bool option" where
  "ignored too_large root patterns rel =
     (case Compile too_large root patterns of
        Inl err \<Rightarrow> None
      | Inr regexes \<Rightarrow> Some (Match rel regexes))"

definition compile_one :: "size_check \<Rightarrow> string \<Rightarrow> error + Regexp" where
  "compile_one too_large g = regexp_Compile too_large (globToRegex (ToSlash (Clean g)))"

section \<open>Package config\<close>

type_synonym SyncDirection = string

definition Full :: SyncDirection where
  "Full = ''full''"

definition LocalToRemote :: SyncDirection where
  "LocalToRemote = ''local_to_remote''"

definition RemoteToLocal :: SyncDirection where
  "RemoteToLocal = ''remote_to_local''"

text \<open>A \<^verbatim>\<open>time.Duration\<close> is a number of nanoseconds.\<close>

type_synonym Duration = int

definition Second :: Duration where
  "Second = 1000000000"

record SyncRule =
  Src :: string
  Dst :: string
  Directions :: "SyncDirection list"
  Ignore :: "string list"
  Enabled :: bool
  DebounceWindow :: Duration
  RemotePollWindow :: Duration

record Config =
  Sync :: "SyncRule list"

text \<open>
  \<open>Load\<close> decodes the YAML document into a \<open>Config\<close> that starts as the zero value, so
  a key that the document leaves out keeps the zero value of its field. \<open>yaml_rule\<close> is
  one entry of the document's \<^verbatim>\<open>sync\<close> list, each key present or not, and
  \<open>decode_rule\<close> is what the decoder makes of it. No default is put in afterwards.
\<close>

record yaml_rule =
  yaml_src :: "string option"
  yaml_dst :: "string option"
  yaml_directions :: "SyncDirection list option"
  yaml_ignore :: "string list option"
  yaml_enabled :: "bool option"
  yaml_debounce_window :: "Duration option"
  yaml_remote_poll_window :: "Duration option"

definition decode_rule :: "yaml_rule \<Rightarrow> SyncRule" where
  "decode_rule y =
     \<lparr>Src = (case yaml_src y of None \<Rightarrow> [] | Some v \<Rightarrow> v),
      Dst = (case yaml_dst y of None \<Rightarrow> [] | Some v \<Rightarrow> v),
      Directions = (case yaml_directions y of None \<Rightarrow> [] | Some v \<Rightarrow> v),
      Ignore = (case yaml_ignore y of None \<Rightarrow> [] | Some v \<Rightarrow> v),
      Enabled = (case yaml_enabled y of None \<Rightarrow> False | Some v \<Rightarrow> v),
      DebounceWindow = (case yaml_debounce_window y of None \<Rightarrow> 0 | Some v \<Rightarrow> v),
      RemotePollWindow = (case yaml_remote_poll_window y of None \<Rightarrow> 0 | Some v \<Rightarrow> v)\<rparr>"

definition Load :: "yaml_rule list \<Rightarrow> Config" where
  "Load doc = \<lparr>Sync = map decode_rule doc\<rparr>"

section \<open>The environment\<close>

text \<open>
  What the program asks of the operating system, and what the model leaves open about
  its libraries. \<open>current_user_home\<close> is the home
  directory of \<^verbatim>\<open>user.Current()\<close>, or \<open>None\<close> when that call fails.
  \<open>new_watcher_err\<close> is the error of \<^verbatim>\<open>fsnotify.NewWatcher()\<close>, if any. \<open>walk_dir root\<close>
  lists the calls that \<^verbatim>\<open>filepath.WalkDir\<close> makes to its function on \<open>root\<close> when no call
  stops the walk: the path, whether the entry is a directory, and the error of reading
  it. \<open>add_err p\<close> is the error of \<^verbatim>\<open>w.Add(p)\<close>, if any. \<open>stat_is_dir p\<close> says that
  \<^verbatim>\<open>os.Stat(p)\<close> succeeds and reports a directory. \<open>gsutil_fails args\<close> says that the
  \<^verbatim>\<open>gsutil\<close> command run with \<open>args\<close> ends with an error. \<open>regexp_too_large\<close> is the size
  check of the regexp library.
\<close>

datatype walk_call = WalkCall string bool "error option"

record env =
  current_user_home :: "string option"
  new_watcher_err :: "error option"
  walk_dir :: "string \<Rightarrow> walk_call list"
  add_err :: "string \<Rightarrow> error option"
  stat_is_dir :: "string \<Rightarrow> bool"
  gsutil_fails :: "string list \<Rightarrow> bool"
  regexp_too_large :: size_check

section \<open>Package util\<close>

text \<open>\<open>Expand\<close> panics on a nil pointer when \<^verbatim>\<open>user.Current()\<close> fails: its error is
  dropped and the user it returns is then nil.\<close>

definition Expand :: "env \<Rightarrow> string \<Rightarrow> error + string" where
  "Expand e path =
     (if HasPrefix path ''~'' then
        (case current_user_home e of
           None \<Rightarrow> Inl PanicNilDereference
         | Some home \<Rightarrow> Inr (Join home (drop 1 path)))
      else Inr path)"

section \<open>What a run does: effects and state\<close>

text \<open>
  \<^verbatim>\<open>fsnotify.Event\<close>: the path and the operations, a set of bits of which \<open>Create\<close> is
  the first.
\<close>

type_synonym Op = nat

definition Create :: Op where
  "Create = 1"

definition Write :: Op where
  "Write = 2"

record Event =
  Name :: string
  Op :: Op

text \<open>
  The messages the program logs, by their format strings:
  \<^verbatim>\<open>gsutil %s\<close>, \<^verbatim>\<open>gsutil exited with error\<close>, \<^verbatim>\<open>gsutil finished in %s\<close>,
  \<^verbatim>\<open>debounce timer started (%s) reason=%s\<close>, \<^verbatim>\<open>remote polling enabled (%s)\<close>,
  \<^verbatim>\<open>watcher error\<close>, \<^verbatim>\<open>stopping watcher\<close>, \<^verbatim>\<open>ignored %s %s\<close> and \<^verbatim>\<open>event %s %s\<close>.
  A logger is the list of its fields.
\<close>

datatype message =
    MsgGsutil "string list"
  | MsgGsutilError
  | MsgGsutilFinished
  | MsgDebounceStarted Duration Op
  | MsgPollingEnabled Duration
  | MsgWatcherError
  | MsgStopping
  | MsgIgnored Op string
  | MsgEvent Op string

type_synonym logger = "(string \<times> string) list"

text \<open>\<^verbatim>\<open>WithField\<close>: the logger with one more field, which replaces a field of the
  same key.\<close>

definition WithField :: "logger \<Rightarrow> string \<Rightarrow> string \<Rightarrow> logger" where
  "WithField l k v = filter (\<lambda>f. fst f \<noteq> k) l @ [(k, v)]"

text \<open>
  The effects of a run, in the order they happen: a log call, the run of a command,
  a directory registered with the watcher (\<^verbatim>\<open>w.Add\<close> succeeded), the debounce timer
  created by \<^verbatim>\<open>time.AfterFunc\<close> or armed again by \<^verbatim>\<open>Reset\<close>, the poll ticker created by
  \<^verbatim>\<open>time.NewTicker\<close> or stopped, and the watcher closed.
\<close>

datatype effect =
    Log logger message
  | Exec string "string list"
  | WatchAdd string
  | TimerStart Duration
  | TimerReset Duration
  | TickerStart Duration
  | TickerStop
  | WatcherClose

text \<open>The variable \<^verbatim>\<open>timer\<close> of \<open>run\<close>: nil, or a timer that is pending or has fired.\<close>

datatype timer_state = NoTimer | Pending | Expired

datatype status = Running | Returned "error option" | Panicked error

record run_state =
  trace :: "effect list"
  timer :: timer_state
  ticker :: "Duration option"
  status :: status

definition init_state :: run_state where
  "init_state = \<lparr>trace = [], timer = NoTimer, ticker = None, status = Running\<rparr>"

definition emit :: "effect \<Rightarrow> run_state \<Rightarrow> run_state" where
  "emit x st = st\<lparr>trace := trace st @ [x]\<rparr>"

section \<open>Package gsutil\<close>

definition rsync_args :: "string \<Rightarrow> string \<Rightarrow> bool \<Rightarrow> Regexp list \<Rightarrow> string list" where
  "rsync_args src dst deleteRemote ignoreRegex =
     [''-m'', ''-o'', ''GSUtil:parallel_process_count=1'',
      ''-o'', ''GSUtil:sliced_object_download_threshold=0'', ''rsync'', ''-r'', ''-e'']
     @ (if deleteRemote then [''-d''] else [])
     @ concat (map (\<lambda>re. [''-x'', String re]) ignoreRegex)
     @ [src, dst]"

definition RSync ::
  "env \<Rightarrow> string \<Rightarrow> string \<Rightarrow> bool \<Rightarrow> Regexp list \<Rightarrow> logger \<Rightarrow> run_state \<Rightarrow> run_state" where
  "RSync e src dst deleteRemote ignoreRegex l st =
     (let args = rsync_args src dst deleteRemote ignoreRegex;
          st = emit (Log l (MsgGsutil args)) st;
          st = emit (Exec ''gsutil'' args) st;
          st = (if gsutil_fails e args then emit (Log l MsgGsutilError) st else st)
      in emit (Log l MsgGsutilFinished) st)"

section \<open>Package watcher: the rule runner\<close>

record ruleRunner =
  rule :: SyncRule
  srcRoot :: string
  ign :: "Regexp list"
  log :: logger

definition newRuleRunner :: "env \<Rightarrow> SyncRule \<Rightarrow> error + ruleRunner" where
  "newRuleRunner e r =
     (case Expand e (Src r) of
        Inl err \<Rightarrow> Inl err
      | Inr src \<Rightarrow>
          (case Compile (regexp_too_large e) src (Ignore r) of
             Inl err \<Rightarrow> Inl err
           | Inr ig \<Rightarrow>
               Inr \<lparr>rule = r, srcRoot = src, ign = ig, log = WithField [] ''rule'' src\<rparr>))"

definition syncOnce :: "env \<Rightarrow> ruleRunner \<Rightarrow> string \<Rightarrow> run_state \<Rightarrow> run_state" where
  "syncOnce e rr reason st =
     (let l = WithField (log rr) ''reason'' reason
      in RSync e (srcRoot rr) (Dst (rule rr)) True (ign rr) l st)"

fun containsDir :: "SyncDirection list \<Rightarrow> SyncDirection \<Rightarrow> bool" where
  "containsDir [] v = False"
| "containsDir (d # slice) v = (if d = v then True else containsDir slice v)"

text \<open>
  \<open>addRecursive\<close>: the function given to \<^verbatim>\<open>WalkDir\<close> returns the error it is called with,
  registers a directory, and does nothing on a file; the walk stops at the first error.
\<close>

fun walk_calls :: "env \<Rightarrow> walk_call list \<Rightarrow> run_state \<Rightarrow> run_state \<times> error option" where
  "walk_calls e [] st = (st, None)"
| "walk_calls e (WalkCall p isDir err # calls) st =
     (case err of
        Some x \<Rightarrow> (st, Some x)
      | None \<Rightarrow>
          if isDir then
            (case add_err e p of
               Some x \<Rightarrow> (st, Some x)
             | None \<Rightarrow> walk_calls e calls (emit (WatchAdd p) st))
          else walk_calls e calls st)"

definition addRecursive :: "env \<Rightarrow> string \<Rightarrow> run_state \<Rightarrow> run_state \<times> error option" where
  "addRecursive e root st = walk_calls e (walk_dir e root) st"

text \<open>\<open>handleEvent\<close> drops the error of \<^verbatim>\<open>filepath.Rel\<close>, whose result is then empty, and
  the error of \<open>addRecursive\<close>.\<close>

definition handleEvent :: "env \<Rightarrow> ruleRunner \<Rightarrow> Event \<Rightarrow> run_state \<Rightarrow> run_state" where
  "handleEvent e rr ev st =
     (let rel = (case Rel (srcRoot rr) (Name ev) of Inl err \<Rightarrow> [] | Inr r \<Rightarrow> r);
          rel = ToSlash rel
      in if Match rel (ign rr) then emit (Log (log rr) (MsgIgnored (Op ev) rel)) st
         else
           let st = emit (Log (log rr) (MsgEvent (Op ev) rel)) st
           in if and (Op ev) Create \<noteq> 0 then
                (if stat_is_dir e (Name ev) then fst (addRecursive e (Name ev) st) else st)
              else st)"

text \<open>The closure \<open>resetDebounce\<close> of \<open>run\<close>, on the variable \<open>timer\<close>.\<close>

definition resetDebounce :: "ruleRunner \<Rightarrow> Op \<Rightarrow> run_state \<Rightarrow> run_state" where
  "resetDebounce rr reason st =
     (if timer st = NoTimer then
        emit (Log (log rr) (MsgDebounceStarted (DebounceWindow (rule rr)) reason))
          (emit (TimerStart (DebounceWindow (rule rr))) (st\<lparr>timer := Pending\<rparr>))
      else emit (TimerReset (DebounceWindow (rule rr))) (st\<lparr>timer := Pending\<rparr>))"

text \<open>\<open>tickerTick\<close>: the channel of the ticker, or the nil channel, which never
  delivers; the result says whether a tick can be received.\<close>

definition tickerTick :: "Duration option \<Rightarrow> bool" where
  "tickerTick t = (t \<noteq> None)"

text \<open>
  What happens around the main loop, in the order the loop or the run time takes it up:
  an event or an error of the watcher, a tick of the poll ticker, the debounce timer
  firing (the run time then calls \<open>syncOnce\<close> with reason \<^verbatim>\<open>debounce\<close> in a goroutine of
  its own), and the stop signal. The loop runs for ever: on a finite list of
  occurrences it is still running at the end unless the stop signal is among them.
\<close>

datatype occurrence = FsEvent Event | FsError | Tick | DebounceFires | Stop

text \<open>The deferred calls of \<open>run\<close>: the ticker is stopped if there is one, then the
  watcher is closed.\<close>

definition deferred :: "run_state \<Rightarrow> run_state" where
  "deferred st = emit WatcherClose (if ticker st \<noteq> None then emit TickerStop st else st)"

fun main_loop :: "env \<Rightarrow> ruleRunner \<Rightarrow> run_state \<Rightarrow> occurrence list \<Rightarrow> run_state" where
  "main_loop e rr st [] = st"
| "main_loop e rr st (FsEvent ev # os) =
     main_loop e rr (resetDebounce rr (Op ev) (handleEvent e rr ev st)) os"
| "main_loop e rr st (FsError # os) =
     main_loop e rr (emit (Log (log rr) MsgWatcherError) st) os"
| "main_loop e rr st (Tick # os) =
     (if tickerTick (ticker st) then main_loop e rr (syncOnce e rr ''periodic pull'' st) os
      else main_loop e rr st os)"
| "main_loop e rr st (DebounceFires # os) =
     (if timer st = Pending then
        main_loop e rr (syncOnce e rr ''debounce'' (st\<lparr>timer := Expired\<rparr>)) os
      else main_loop e rr st os)"
| "main_loop e rr st (Stop # os) =
     (deferred (emit (Log (log rr) MsgStopping) st))\<lparr>status := Returned None\<rparr>"

text \<open>\<^verbatim>\<open>time.NewTicker\<close> panics when the interval is not positive.\<close>

definition run :: "env \<Rightarrow> ruleRunner \<Rightarrow> occurrence list \<Rightarrow> run_state" where
  "run e rr occs =
     (case new_watcher_err e of
        Some err \<Rightarrow> init_state\<lparr>status := Returned (Some err)\<rparr>
      | None \<Rightarrow>
          (case addRecursive e (srcRoot rr) init_state of
             (st, Some err) \<Rightarrow> (emit WatcherClose st)\<lparr>status := Returned (Some err)\<rparr>
           | (st, None) \<Rightarrow>
               let st = syncOnce e rr ''initial'' st in
               if containsDir (Directions (rule rr)) RemoteToLocal
                  \<or> containsDir (Directions (rule rr)) Full
               then
                 (if RemotePollWindow (rule rr) \<le> 0
                  then (emit WatcherClose st)\<lparr>status := Panicked PanicNonPositiveInterval\<rparr>
                  else
                    main_loop e rr
                      (emit (Log (log rr) (MsgPollingEnabled (RemotePollWindow (rule rr))))
                         ((emit (TickerStart (RemotePollWindow (rule rr))) st)
                            \<lparr>ticker := Some (RemotePollWindow (rule rr))\<rparr>))
                      occs)
               else main_loop e rr st occs))"

section \<open>Package watcher: the supervisor\<close>

text \<open>
  The start hook of \<open>StartAll\<close>. \<open>started\<close> holds the runners whose goroutine has been
  started, in order; each of them executes \<open>run\<close>. The result is the error the hook
  returns, if any; the runners started before it stay started.
\<close>

fun OnStart_loop ::
  "env \<Rightarrow> ruleRunner list \<Rightarrow> SyncRule list \<Rightarrow> ruleRunner list \<times> error option" where
  "OnStart_loop e started [] = (started, None)"
| "OnStart_loop e started (r # rs) =
     (if \<not> Enabled r then OnStart_loop e started rs
      else
        (case newRuleRunner e r of
           Inl err \<Rightarrow> (started, Some err)
         | Inr runner \<Rightarrow> OnStart_loop e (started @ [runner]) rs))"

definition OnStart :: "env \<Rightarrow> Config \<Rightarrow> ruleRunner list \<times> error option" where
  "OnStart e cfg = OnStart_loop e [] (Sync cfg)"

section \<open>Package logging\<close>

text \<open>
  The levels of logrus and its \<^verbatim>\<open>ParseLevel\<close>, which lowers its argument and knows the
  names \<^verbatim>\<open>panic\<close>, \<^verbatim>\<open>fatal\<close>, \<^verbatim>\<open>error\<close>, \<^verbatim>\<open>warn\<close>, \<^verbatim>\<open>warning\<close>, \<^verbatim>\<open>info\<close>, \<^verbatim>\<open>debug\<close> and
  \<^verbatim>\<open>trace\<close>.

  \<^verbatim>\<open>strings.ToLower\<close> lowers the letters A to Z of a string that is all ASCII; any other
  string goes through the case tables of Unicode, which are a parameter of the model
  (\<open>umap\<close>, the whole mapping of such a string).
\<close>

datatype Level =
  PanicLevel | FatalLevel | ErrorLevel | WarnLevel | InfoLevel | DebugLevel | TraceLevel

datatype level_error = NotAValidLevel string

definition lower_byte :: "char \<Rightarrow> char" where
  "lower_byte c = (if 65 \<le> byte c \<and> byte c \<le> 90 then char_of (byte c + 32) else c)"

definition ToLower :: "(string \<Rightarrow> string) \<Rightarrow> string \<Rightarrow> string" where
  "ToLower umap s = (if list_all (\<lambda>c. byte c < 128) s then map lower_byte s else umap s)"

definition ParseLevel :: "(string \<Rightarrow> string) \<Rightarrow> string \<Rightarrow> level_error + Level" where
  "ParseLevel umap lvl =
     (let l = ToLower umap lvl in
      if l = ''panic'' then Inr PanicLevel
      else if l = ''fatal'' then Inr FatalLevel
      else if l = ''error'' then Inr ErrorLevel
      else if l = ''warn'' \<or> l = ''warning'' then Inr WarnLevel
      else if l = ''info'' then Inr InfoLevel
      else if l = ''debug'' then Inr DebugLevel
      else if l = ''trace'' then Inr TraceLevel
      else Inl (NotAValidLevel lvl))"

text \<open>\<open>Init\<close> sets the level of the global logger; the model returns that level.\<close>

definition Init :: "(string \<Rightarrow> string) \<Rightarrow> string \<Rightarrow> Level" where
  "Init umap level =
     (case ParseLevel umap (ToLower umap level) of
        Inl err \<Rightarrow> InfoLevel
      | Inr lvl \<Rightarrow> lvl)"

section \<open>A concrete configuration\<close>

text \<open>
  The rule of the README's example configuration, which sets neither window, decoded
  as \<open>Load\<close> does; an environment in which the home directory is \<^verbatim>\<open>/home/user\<close>, every
  source root is a directory without subdirectories, no call fails and the regexp
  library refuses every expression of more than 1000000 bytes (\<open>strict_size_check\<close>);
  and the runner
  that \<open>newRuleRunner\<close> builds for the rule there, with its two compiled patterns.
\<close>

definition strict_size_check :: size_check where
  "strict_size_check = (\<lambda>expr. True)"

definition readme_env :: env where
  "readme_env =
     \<lparr>current_user_home = Some ''/home/user'',
      new_watcher_err = None,
      walk_dir = (\<lambda>root. [WalkCall root True None]),
      add_err = (\<lambda>p. None),
      stat_is_dir = (\<lambda>p. False),
      gsutil_fails = (\<lambda>args. False),
      regexp_too_large = strict_size_check\<rparr>"

definition readme_yaml :: yaml_rule where
  "readme_yaml =
     \<lparr>yaml_src = Some ''~/Projects/book'',
      yaml_dst = Some ''gs://my-bucket/book'',
      yaml_directions = Some [''local_to_remote''],
      yaml_ignore = Some [''**/*.tmp'', ''cache/**''],
      yaml_enabled = Some True,
      yaml_debounce_window = None,
      yaml_remote_poll_window = None\<rparr>"

definition full_yaml :: yaml_rule where
  "full_yaml = readme_yaml\<lparr>yaml_directions := Some [''local_to_remote'', ''full'']\<rparr>"

definition readme_rule :: SyncRule where
  "readme_rule = decode_rule readme_yaml"

definition tmp_regexp :: Regexp where
  "tmp_regexp =
     \<lparr>expr = ''^.*/[^/]*'' @ [backslash] @ ''.tmp$'',
      prog = [BeginText, Star AnyCharNotNL, Single (Lit 47), Star (CharClass True [47]),
              Single (Lit 46), Single (Lit 116), Single (Lit 109), Single (Lit 112), EndText]\<rparr>"

definition cache_regexp :: Regexp where
  "cache_regexp =
     \<lparr>expr = ''^cache/.*$'',
      prog = [BeginText, Single (Lit 99), Single (Lit 97), Single (Lit 99), Single (Lit 104),
              Single (Lit 101), Single (Lit 47), Star AnyCharNotNL, EndText]\<rparr>"

definition readme_runner :: ruleRunner where
  "readme_runner =
     \<lparr>rule = readme_rule, srcRoot = ''/home/user/Projects/book'',
      ign = [tmp_regexp, cache_regexp], log = [(''rule'', ''/home/user/Projects/book'')]\<rparr>"

text \<open>The same runner for a rule with the directions \<^verbatim>\<open>local_to_remote\<close> and \<^verbatim>\<open>full\<close> and
  a given poll interval (\<open>full_yaml\<close> is the README's rule with these directions, which
  sets no interval), a
  rule with a pattern that is no UTF-8, a disabled rule, and an event on a path that the
  rule ignores.\<close>

definition full_runner :: "Duration \<Rightarrow> ruleRunner" where
  "full_runner d =
     readme_runner\<lparr>rule := readme_rule\<lparr>Directions := [''local_to_remote'', ''full''],
       RemotePollWindow := d\<rparr>\<rparr>"

definition bad_rule :: SyncRule where
  "bad_rule = readme_rule\<lparr>Ignore := [[CHR 0xFF]]\<rparr>"

definition disabled_rule :: SyncRule where
  "disabled_rule = readme_rule\<lparr>Src := ''/data'', Enabled := False\<rparr>"

definition cache_event :: Event where
  "cache_event = \<lparr>Name = ''/home/user/Projects/book/cache/x'', Op = Write\<rparr>"

section \<open>Observations on a run\<close>

text \<open>The intervals of the poll tickers that a trace creates, in order.\<close>

fun ticker_starts :: "effect list \<Rightarrow> Duration list" where
  "ticker_starts [] = []"
| "ticker_starts (TickerStart d # xs) = d # ticker_starts xs"
| "ticker_starts (x # xs) = ticker_starts xs"

text \<open>A rule whose runner can be constructed, or that is not enabled and needs none.\<close>

definition constructible :: "env \<Rightarrow> SyncRule \<Rightarrow> bool" where
  "constructible e r = (\<not> Enabled r \<or> \<not> isl (newRuleRunner e r))"

text \<open>The names that \<open>ParseLevel\<close> knows.\<close>

definition level_names :: "string list" where
  "level_names =
     [''panic'', ''fatal'', ''error'', ''warn'', ''warning'', ''info'', ''debug'', ''trace'']"

section \<open>Evaluating the model on concrete strings\<close>

lemma ReplaceAll_Nil: "old \<noteq> [] \<Longrightarrow> ReplaceAll [] old new = []"
  by (simp add: ReplaceAll.simps [of "[]" old new])

lemma ReplaceAll_Cons:
  "old \<noteq> [] \<Longrightarrow> ReplaceAll (c # s) old new =
     (if HasPrefix (c # s) old then new @ ReplaceAll (drop (length old) (c # s)) old new
      else c # ReplaceAll s old new)"
  by (simp add: ReplaceAll.simps [of "c # s" old new])

lemma nextRune_ascii: "byte c < 128 \<Longrightarrow> nextRune (c # t) = Inr (byte c, t)"
  by (simp add: nextRune_def seq_size_def RuneError_def)

lemma runes_of_Nil: "runes_of [] = []"
  by (simp add: runes_of.simps [of "[]"])

lemma runes_of_ascii: "byte c < 128 \<Longrightarrow> runes_of (c # s) = byte c # runes_of s"
  by (simp add: runes_of.simps [of "c # s"] seq_size_def)

lemma parseClass_Nil: "parseClass first acc [] = Inl ErrMissingBracket"
  by (simp add: parseClass.simps [of first acc "[]"])

lemma parseClass_Cons:
  "parseClass first acc (c # s) =
     (if c = CHR '']'' then (if first then Inl ErrUnsupported else Inr (rev acc, s))
      else if c = backslash \<or> c = CHR ''['' \<or> c = CHR ''-'' then Inl ErrUnsupported
      else
        (case nextRune (c # s) of
           Inl e \<Rightarrow> Inl e
         | Inr (r, t) \<Rightarrow>
             if t \<noteq> [] \<and> hd t = CHR ''-'' then Inl ErrUnsupported
             else parseClass False (r # acc) t))"
  by (simp add: parseClass.simps [of first acc "c # s"])

lemmas eval_simps = ReplaceAll_Nil ReplaceAll_Cons nextRune_ascii runes_of_Nil runes_of_ascii
  parseClass_Nil parseClass_Cons parse_loop.simps(2) HasPrefix_def special_def byte_def
  isalnum_def Clean_def ToSlash_def globToRegex_def refused_def regexp_Compile_def Compile_def
  MatchString_def ignored_def


section \<open>The structure of \<open>Compile\<close> and \<open>Match\<close>\<close>

lemma Compile_loop_acc:
  "Compile_loop lim res gs = (case Compile_loop lim [] gs of Inl e \<Rightarrow> Inl e | Inr rs \<Rightarrow> Inr (res @ rs))"
proof (induction gs arbitrary: res)
  case Nil
  show ?case by simp
next
  case (Cons g gs)
  show ?case
  proof (cases "regexp_Compile lim (globToRegex (ToSlash (Clean g)))")
    case (Inl e)
    then show ?thesis by simp
  next
    case (Inr re)
    then show ?thesis
      using Cons.IH [of "res @ [re]"] Cons.IH [of "[re]"]
      by (simp split: sum.splits)
  qed
qed

lemma Compile_Cons:
  "Compile lim root (g # gs) =
     (case compile_one lim g of
        Inl e \<Rightarrow> Inl e
      | Inr re \<Rightarrow> (case Compile lim root gs of Inl e \<Rightarrow> Inl e | Inr rs \<Rightarrow> Inr (re # rs)))"
  by (simp add: Compile_def compile_one_def Compile_loop_acc [of _ "[_]" gs] split: sum.splits)


lemma Compile_Nil: "Compile lim root [] = Inr []"
  by (simp add: Compile_def)

lemma Compile_Inr_iff:
  "Compile lim root gs = Inr rs \<longleftrightarrow> map (compile_one lim) gs = map Inr rs"
proof (induction gs arbitrary: rs)
  case Nil
  show ?case by (auto simp: Compile_Nil)
next
  case (Cons g gs)
  show ?case
  proof (cases "compile_one lim g")
    case (Inl e)
    then show ?thesis by (auto simp: Compile_Cons)
  next
    case (Inr re)
    show ?thesis
    proof (cases "Compile lim root gs")
      case (Inl e)
      with Inr Cons.IH show ?thesis
        by (auto simp: Compile_Cons map_eq_Cons_conv)
    next
      case r: (Inr rs')
      with Inr Cons.IH [of rs'] Cons.IH show ?thesis
        by (auto simp: Compile_Cons map_eq_Cons_conv)
    qed
  qed
qed

lemma Compile_succeeds_iff:
  "(\<exists>rs. Compile lim root gs = Inr rs) \<longleftrightarrow> (\<forall>g \<in> set gs. \<exists>re. compile_one lim g = Inr re)"
proof (induction gs)
  case Nil
  show ?case by (simp add: Compile_Nil)
next
  case (Cons g gs)
  then show ?case
    by (cases "compile_one lim g"; cases "Compile lim root gs") (auto simp: Compile_Cons)
qed

lemma Match_iff: "Match rel rs \<longleftrightarrow> (\<exists>re \<in> set rs. MatchString re rel)"
  by (induction rs) auto

lemma Compile_set:
  assumes "Compile lim root gs = Inr rs"
  shows "set rs = {re. \<exists>g \<in> set gs. compile_one lim g = Inr re}"
proof -
  from assms have m: "map (compile_one lim) gs = map Inr rs"
    by (simp add: Compile_Inr_iff)
  then have "compile_one lim ` set gs = Inr ` set rs"
    by (metis list.set_map)
  then show ?thesis
    by (auto simp: image_iff) (metis imageI sum.inject(2) image_iff)+
qed


section \<open>The ignore patterns\<close>

lemma match_dot_star_end:
  "match_here [Star AnyCharNotNL, EndText] b cs = (10 \<notin> set cs)"
  by (induction cs arbitrary: b) auto

lemma search_anchored_later: "search (BeginText # k) False cs = False"
  by (induction cs) simp_all

lemma search_anchored: "search (BeginText # k) True cs = match_here k True cs"
  by (cases cs) (simp_all add: search_anchored_later)

text \<open>
  C3, as amended. The pattern \<^verbatim>\<open>**/*.tmp\<close> compiles to \<^verbatim>\<open>^.*/[^/]*\.tmp$\<close>: it matches
  \<^verbatim>\<open>a/b/c.tmp\<close>, and it matches neither \<^verbatim>\<open>c.tmpx\<close> nor \<^verbatim>\<open>c.tmp\<close>, since the slash after
  \<^verbatim>\<open>**\<close> stays in the expression and a path must hold one. The pattern \<^verbatim>\<open>cache/**\<close>
  matches \<^verbatim>\<open>cache/x\<close> and \<^verbatim>\<open>cache/x/y\<close> and does not match \<^verbatim>\<open>cachex/y\<close>. A pair of stars
  becomes \<^verbatim>\<open>.*\<close>, which matches every run of runes without a newline, the separator
  included: the pattern \<^verbatim>\<open>**\<close> alone matches exactly the paths that hold no newline, the
  empty path and \<^verbatim>\<open>a/b/c\<close> among them, and \<^verbatim>\<open>cache/**\<close> matches \<^verbatim>\<open>cache/\<close> followed by
  \<open>p\<close> exactly when \<open>p\<close> holds no newline.
\<close>

theorem glob_examples:
  "ignored lim root [''**/*.tmp''] ''a/b/c.tmp'' = Some True
   \<and> ignored lim root [''**/*.tmp''] ''c.tmp'' = Some False
   \<and> ignored lim root [''**/*.tmp''] ''c.tmpx'' = Some False
   \<and> ignored lim root [''cache/**''] ''cache/x'' = Some True
   \<and> ignored lim root [''cache/**''] ''cache/x/y'' = Some True
   \<and> ignored lim root [''cache/**''] ''cachex/y'' = Some False
   \<and> ignored lim root [''**''] [] = Some True
   \<and> ignored lim root [''**''] ''a/b/c'' = Some True
   \<and> ignored lim root [''**''] p = Some (10 \<notin> set (runes_of p))
   \<and> ignored lim root [''cache/**''] (''cache/'' @ p) = Some (10 \<notin> set (runes_of p))"
proof -
  have star: "Compile lim root [''**'']
      = Inr [\<lparr>expr = ''^.*$'', prog = [BeginText, Star AnyCharNotNL, EndText]\<rparr>]"
    by (simp add: eval_simps)
  have cache: "Compile lim root [''cache/**''] = Inr [cache_regexp]"
    by (simp add: eval_simps cache_regexp_def)
  have a: "ignored lim root [''**''] p = Some (10 \<notin> set (runes_of p))"
    by (simp add: ignored_def star MatchString_def search_anchored match_dot_star_end)
  have b: "ignored lim root [''cache/**''] (''cache/'' @ p) = Some (10 \<notin> set (runes_of p))"
    by (simp add: ignored_def cache MatchString_def cache_regexp_def search_anchored
        search_anchored_later runes_of_ascii byte_def match_dot_star_end)
  have c: "ignored lim root [''**/*.tmp''] ''a/b/c.tmp'' = Some True
   \<and> ignored lim root [''**/*.tmp''] ''c.tmp'' = Some False
   \<and> ignored lim root [''**/*.tmp''] ''c.tmpx'' = Some False
   \<and> ignored lim root [''cache/**''] ''cache/x'' = Some True
   \<and> ignored lim root [''cache/**''] ''cache/x/y'' = Some True
   \<and> ignored lim root [''cache/**''] ''cachex/y'' = Some False
   \<and> ignored lim root [''**''] [] = Some True
   \<and> ignored lim root [''**''] ''a/b/c'' = Some True"
    by (simp add: eval_simps)
  from a b c show ?thesis by blast
qed

text \<open>C3 as stated fails: the path \<^verbatim>\<open>c.tmp\<close> is not matched by \<^verbatim>\<open>**/*.tmp\<close>.\<close>

theorem glob_tmp_top_level_counterexample:
  "ignored strict_size_check ''/src'' [''**/*.tmp''] ''c.tmp'' = Some False"
  by (simp add: eval_simps)

text \<open>
  C9. Whether a path is ignored is a function of the path and the patterns, and it is
  the same for every order of the patterns; this includes the case that the patterns
  do not compile.
\<close>

theorem ignore_order_independent:
  assumes "mset S' = mset S"
  shows "ignored lim root S' P = ignored lim root S P"
proof -
  from assms have s: "set S' = set S"
    by (metis set_mset_mset)
  show ?thesis
  proof (cases "Compile lim root S")
    case (Inl e)
    then have "\<not> (\<exists>rs. Compile lim root S = Inr rs)" by simp
    then have "\<not> (\<exists>rs. Compile lim root S' = Inr rs)"
      unfolding Compile_succeeds_iff s .
    then obtain e' where "Compile lim root S' = Inl e'"
      by (cases "Compile lim root S'") auto
    with Inl show ?thesis by (simp add: ignored_def)
  next
    case (Inr rs)
    then have "\<exists>rs. Compile lim root S = Inr rs" by blast
    then have "\<exists>rs. Compile lim root S' = Inr rs"
      unfolding Compile_succeeds_iff s .
    then obtain rs' where r': "Compile lim root S' = Inr rs'" by blast
    have "set rs' = set rs"
      using Compile_set [OF Inr] Compile_set [OF r'] s by simp
    then show ?thesis
      using Inr r' by (simp add: ignored_def Match_iff)
  qed
qed


theorem ignore_order_independent_witness:
  "mset [''cache/**'', ''*.tmp''] = mset [''*.tmp'', ''cache/**'']
   \<and> ignored strict_size_check ''/src'' [''*.tmp'', ''cache/**''] ''cache/x'' = Some True
   \<and> ignored strict_size_check ''/src'' [''cache/**'', ''*.tmp''] ''cache/x'' = Some True"
proof -
  have h: "mset [''cache/**'', ''*.tmp''] = mset [''*.tmp'', ''cache/**'']"
    by (simp add: add.commute)
  have a: "ignored strict_size_check ''/src'' [''*.tmp'', ''cache/**''] ''cache/x'' = Some True"
    by (simp add: eval_simps)
  have b: "ignored strict_size_check ''/src'' [''cache/**'', ''*.tmp''] ''cache/x''
      = ignored strict_size_check ''/src'' [''*.tmp'', ''cache/**''] ''cache/x''"
    by (rule ignore_order_independent [OF h])
  from h a b show ?thesis by simp
qed

section \<open>The concrete configuration, evaluated\<close>

lemma readme_rule_eq:
  "readme_rule =
     \<lparr>Src = ''~/Projects/book'', Dst = ''gs://my-bucket/book'',
      Directions = [''local_to_remote''], Ignore = [''**/*.tmp'', ''cache/**''],
      Enabled = True, DebounceWindow = 0, RemotePollWindow = 0\<rparr>"
  by (simp add: readme_rule_def readme_yaml_def decode_rule_def)

lemma Expand_readme: "Expand readme_env ''~/Projects/book'' = Inr ''/home/user/Projects/book''"
  by (simp add: Expand_def readme_env_def HasPrefix_def Join_def Clean_def)

lemma Compile_readme:
  "Compile lim root [''**/*.tmp'', ''cache/**''] = Inr [tmp_regexp, cache_regexp]"
  by (simp add: eval_simps tmp_regexp_def cache_regexp_def)

lemma newRuleRunner_readme: "newRuleRunner readme_env readme_rule = Inr readme_runner"
  by (simp add: newRuleRunner_def readme_rule_eq Expand_readme Compile_readme readme_runner_def
      WithField_def)

lemma trace_emit [simp]: "trace (emit x st) = trace st @ [x]"
  by (simp add: emit_def)

lemma timer_emit [simp]: "timer (emit x st) = timer st"
  by (simp add: emit_def)

lemma ticker_emit [simp]: "ticker (emit x st) = ticker st"
  by (simp add: emit_def)

lemma status_emit [simp]: "status (emit x st) = status st"
  by (simp add: emit_def)

lemma RSync_trace:
  "trace (RSync e src dst del ig l st) =
     trace st @ [Log l (MsgGsutil (rsync_args src dst del ig)),
                 Exec ''gsutil'' (rsync_args src dst del ig)]
       @ (if gsutil_fails e (rsync_args src dst del ig) then [Log l MsgGsutilError] else [])
       @ [Log l MsgGsutilFinished]"
  by (simp add: RSync_def Let_def)

lemma RSync_fields [simp]:
  "timer (RSync e src dst del ig l st) = timer st"
  "ticker (RSync e src dst del ig l st) = ticker st"
  "status (RSync e src dst del ig l st) = status st"
  by (simp_all add: RSync_def Let_def)

lemma init_state_simps:
  "trace init_state = []"
  "timer init_state = NoTimer"
  "ticker init_state = None"
  "status init_state = Running"
  by (simp_all add: init_state_def)

lemma readme_env_simps:
  "new_watcher_err readme_env = None"
  "current_user_home readme_env = Some ''/home/user''"
  "gsutil_fails readme_env args = False"
  "stat_is_dir readme_env p = False"
  by (simp_all add: readme_env_def)

lemma full_runner_simps:
  "srcRoot (full_runner d) = ''/home/user/Projects/book''"
  "Directions (rule (full_runner d)) = [''local_to_remote'', ''full'']"
  "RemotePollWindow (rule (full_runner d)) = d"
  by (simp_all add: full_runner_def readme_runner_def)

lemma readme_runner_simps:
  "srcRoot readme_runner = ''/home/user/Projects/book''"
  "Directions (rule readme_runner) = [''local_to_remote'']"
  "DebounceWindow (rule readme_runner) = 0"
  "ign readme_runner = [tmp_regexp, cache_regexp]"
  "log readme_runner = [(''rule'', ''/home/user/Projects/book'')]"
  by (simp_all add: readme_runner_def readme_rule_eq)

lemma addRecursive_readme:
  "addRecursive readme_env root init_state = (emit (WatchAdd root) init_state, None)"
  by (simp add: addRecursive_def readme_env_def)

lemma newRuleRunner_bad: "newRuleRunner readme_env bad_rule = Inl ErrInvalidUTF8"
  by (simp add: newRuleRunner_def bad_rule_def readme_rule_eq Expand_readme eval_simps
      nextRune_def seq_size_def RuneError_def)

lemma Rel_cache_event:
  "Rel ''/home/user/Projects/book'' ''/home/user/Projects/book/cache/x'' = Inr ''cache/x''"
  by (simp add: Rel_def Clean_def elements_def)

lemma Match_cache_event: "Match ''cache/x'' [tmp_regexp, cache_regexp]"
  by (simp add: tmp_regexp_def cache_regexp_def eval_simps)

lemma handleEvent_cache_event:
  "handleEvent readme_env readme_runner cache_event st
     = emit (Log [(''rule'', ''/home/user/Projects/book'')] (MsgIgnored Write ''cache/x'')) st"
  by (simp add: handleEvent_def Let_def cache_event_def readme_runner_simps Rel_cache_event
      ToSlash_def Match_cache_event del: Match.simps)

section \<open>The synchronization invocation\<close>

text \<open>
  C4. For a runner built by \<open>newRuleRunner\<close> and any reason, \<open>syncOnce\<close> is one call of
  \<open>RSync\<close> with the expanded source root, the destination of the rule, the deletion
  flag set and the compiled ignore patterns; the command it runs carries \<^verbatim>\<open>-d\<close>; and
  the call is the same whatever the directions of the rule are.
\<close>

theorem syncOnce_invocation:
  assumes "newRuleRunner e r = Inr rr"
  shows "\<exists>src ig. Expand e (Src r) = Inr src \<and> Compile (regexp_too_large e) src (Ignore r) = Inr ig
           \<and> syncOnce e rr reason st
               = RSync e src (Dst r) True ig [(''rule'', src), (''reason'', reason)] st
           \<and> Exec ''gsutil'' (rsync_args src (Dst r) True ig)
               \<in> set (trace (syncOnce e rr reason st))
           \<and> ''-d'' \<in> set (rsync_args src (Dst r) True ig)
           \<and> newRuleRunner e (r\<lparr>Directions := ds\<rparr>) = Inr (rr\<lparr>rule := r\<lparr>Directions := ds\<rparr>\<rparr>)
           \<and> syncOnce e (rr\<lparr>rule := r\<lparr>Directions := ds\<rparr>\<rparr>) reason st = syncOnce e rr reason st"
proof -
  from assms obtain src where s: "Expand e (Src r) = Inr src"
    by (cases "Expand e (Src r)") (simp_all add: newRuleRunner_def)
  with assms obtain ig where i: "Compile (regexp_too_large e) src (Ignore r) = Inr ig"
    by (cases "Compile (regexp_too_large e) src (Ignore r)") (simp_all add: newRuleRunner_def)
  from assms s i have rr: "rr = \<lparr>rule = r, srcRoot = src, ign = ig, log = [(''rule'', src)]\<rparr>"
    by (simp add: newRuleRunner_def WithField_def)
  have "syncOnce e rr reason st
      = RSync e src (Dst r) True ig [(''rule'', src), (''reason'', reason)] st"
    by (simp add: rr syncOnce_def WithField_def)
  moreover have "Exec ''gsutil'' (rsync_args src (Dst r) True ig)
      \<in> set (trace (syncOnce e rr reason st))"
    by (simp add: rr syncOnce_def RSync_trace)
  moreover have "''-d'' \<in> set (rsync_args src (Dst r) True ig)"
    by (simp add: rsync_args_def)
  moreover have "newRuleRunner e (r\<lparr>Directions := ds\<rparr>) = Inr (rr\<lparr>rule := r\<lparr>Directions := ds\<rparr>\<rparr>)"
    using s i by (simp add: newRuleRunner_def rr WithField_def)
  moreover have "syncOnce e (rr\<lparr>rule := r\<lparr>Directions := ds\<rparr>\<rparr>) reason st = syncOnce e rr reason st"
    by (simp add: rr syncOnce_def)
  ultimately show ?thesis using s i by blast
qed

theorem syncOnce_invocation_witness:
  "newRuleRunner readme_env readme_rule = Inr readme_runner
   \<and> syncOnce readme_env readme_runner ''periodic pull'' init_state
       = RSync readme_env ''/home/user/Projects/book'' ''gs://my-bucket/book'' True
           [tmp_regexp, cache_regexp]
           [(''rule'', ''/home/user/Projects/book''), (''reason'', ''periodic pull'')] init_state
   \<and> syncOnce readme_env (readme_runner\<lparr>rule := readme_rule\<lparr>Directions := [''full'']\<rparr>\<rparr>)
         ''periodic pull'' init_state
       = syncOnce readme_env readme_runner ''periodic pull'' init_state"
proof -
  have h: "newRuleRunner readme_env readme_rule = Inr readme_runner"
    by (rule newRuleRunner_readme)
  have s: "Expand readme_env (Src readme_rule) = Inr ''/home/user/Projects/book''"
    by (simp add: readme_rule_eq Expand_readme)
  have i: "Compile (regexp_too_large readme_env) ''/home/user/Projects/book''
        (Ignore readme_rule) = Inr [tmp_regexp, cache_regexp]"
    by (simp add: readme_rule_eq Compile_readme)
  from syncOnce_invocation [OF h, of "''periodic pull''" init_state "[''full'']"] s i h
  show ?thesis by (auto simp: readme_rule_eq)
qed


section \<open>The poll ticker\<close>

lemma ticker_starts_append: "ticker_starts (xs @ ys) = ticker_starts xs @ ticker_starts ys"
  by (induction xs rule: ticker_starts.induct) simp_all

lemma ticker_starts_walk_calls:
  "ticker_starts (trace (fst (walk_calls e calls st))) = ticker_starts (trace st)"
proof (induction calls arbitrary: st)
  case Nil
  show ?case by simp
next
  case (Cons c calls)
  obtain p d err where c: "c = WalkCall p d err" by (cases c)
  show ?case
    by (simp add: c Cons.IH ticker_starts_append split: option.splits)
qed

lemma ticker_starts_handleEvent:
  "ticker_starts (trace (handleEvent e rr ev st)) = ticker_starts (trace st)"
  by (simp add: handleEvent_def Let_def addRecursive_def ticker_starts_walk_calls
      ticker_starts_append)

lemma ticker_starts_resetDebounce:
  "ticker_starts (trace (resetDebounce rr reason st)) = ticker_starts (trace st)"
  by (simp add: resetDebounce_def ticker_starts_append)

lemma ticker_starts_syncOnce:
  "ticker_starts (trace (syncOnce e rr reason st)) = ticker_starts (trace st)"
  by (simp add: syncOnce_def RSync_trace ticker_starts_append)

lemma ticker_starts_main_loop:
  "ticker_starts (trace (main_loop e rr st occs)) = ticker_starts (trace st)"
proof (induction occs arbitrary: st)
  case Nil
  show ?case by simp
next
  case (Cons x occs)
  show ?case
    by (cases x)
      (simp_all add: Cons.IH ticker_starts_handleEvent ticker_starts_resetDebounce
        ticker_starts_syncOnce ticker_starts_append deferred_def)
qed

lemma containsDir_iff: "containsDir slice v \<longleftrightarrow> v \<in> set slice"
  by (induction slice) auto

text \<open>
  What \<open>run\<close> does about the poll ticker. A run whose directions hold neither
  \<^verbatim>\<open>remote_to_local\<close> nor \<^verbatim>\<open>full\<close> creates no poll ticker, whatever happens. A run whose
  directions hold one of them, anywhere in the list, creates exactly one, at the poll
  interval of the rule, when the watcher is set up without error and the interval is
  positive.
\<close>

lemma poll_ticker_by_directions:
  "(RemoteToLocal \<notin> set (Directions (rule rr)) \<and> Full \<notin> set (Directions (rule rr))
      \<longrightarrow> ticker_starts (trace (run e rr occs)) = [])
   \<and> (new_watcher_err e = None \<and> snd (addRecursive e (srcRoot rr) init_state) = None
        \<and> 0 < RemotePollWindow (rule rr)
        \<and> (RemoteToLocal \<in> set (Directions (rule rr)) \<or> Full \<in> set (Directions (rule rr)))
      \<longrightarrow> ticker_starts (trace (run e rr occs)) = [RemotePollWindow (rule rr)])"
proof -
  have init: "ticker_starts (trace init_state) = []"
    by (simp add: init_state_def)
  have walk: "ticker_starts (trace (fst (addRecursive e (srcRoot rr) init_state))) = []"
    by (simp add: addRecursive_def ticker_starts_walk_calls init)
  show ?thesis
    using walk
    by (cases "addRecursive e (srcRoot rr) init_state")
      (auto simp: run_def Let_def init ticker_starts_main_loop ticker_starts_syncOnce
        ticker_starts_append containsDir_iff split: option.splits)
qed

lemma poll_ticker_full_minute:
  "ticker_starts (trace (run readme_env (full_runner (60 * Second)) [Tick, Stop]))
     = [60 * Second]"
  using poll_ticker_by_directions [of "full_runner (60 * Second)" readme_env "[Tick, Stop]"]
  by (simp add: full_runner_simps readme_env_simps addRecursive_readme Full_def Second_def)

text \<open>
  C5 fails on the code. A rule whose directions hold \<^verbatim>\<open>full\<close> and that sets no poll
  interval, as the rule of the README's example sets none, is decoded with the interval
  zero, and no default is put in (compare C7): after the initial synchronization \<open>run\<close>
  calls \<^verbatim>\<open>time.NewTicker(0)\<close>, which panics, and no poll ticker is created.
\<close>

theorem poll_ticker_unset_interval_panics:
  "yaml_remote_poll_window full_yaml = None
   \<and> RemotePollWindow (decode_rule full_yaml) = 0
   \<and> newRuleRunner readme_env (decode_rule full_yaml) = Inr (full_runner 0)
   \<and> containsDir (Directions (rule (full_runner 0))) Full
   \<and> ticker_starts (trace (run readme_env (full_runner 0) [Tick, Stop])) = []
   \<and> status (run readme_env (full_runner 0) [Tick, Stop]) = Panicked PanicNonPositiveInterval"
proof -
  have r: "decode_rule full_yaml
      = readme_rule\<lparr>Directions := [''local_to_remote'', ''full''], RemotePollWindow := 0\<rparr>"
    by (simp add: full_yaml_def readme_yaml_def decode_rule_def readme_rule_def)
  have n: "newRuleRunner readme_env (decode_rule full_yaml) = Inr (full_runner 0)"
    by (simp add: r newRuleRunner_def readme_rule_eq Expand_readme Compile_readme
        full_runner_def readme_runner_def WithField_def readme_env_simps)
  have y: "yaml_remote_poll_window full_yaml = None" "RemotePollWindow (decode_rule full_yaml) = 0"
    by (simp_all add: full_yaml_def readme_yaml_def decode_rule_def)
  have p: "containsDir (Directions (rule (full_runner 0))) Full
   \<and> ticker_starts (trace (run readme_env (full_runner 0) [Tick, Stop])) = []
   \<and> status (run readme_env (full_runner 0) [Tick, Stop]) = Panicked PanicNonPositiveInterval"
    by (simp add: full_runner_simps readme_env_simps Full_def RemoteToLocal_def run_def
        addRecursive_readme ticker_starts_syncOnce ticker_starts_append init_state_simps)
  from y n p show ?thesis by simp
qed


section \<open>The supervisor\<close>

lemma OnStart_loop_all:
  assumes "list_all (constructible e) rs"
  shows "OnStart_loop e started rs
      = (started @ map (projr \<circ> newRuleRunner e) (filter Enabled rs), None)"
  using assms
proof (induction rs arbitrary: started)
  case Nil
  show ?case by simp
next
  case (Cons r rs)
  show ?case
  proof (cases "Enabled r")
    case False
    with Cons show ?thesis by simp
  next
    case True
    with Cons.prems obtain runner where "newRuleRunner e r = Inr runner"
      by (cases "newRuleRunner e r") (simp_all add: constructible_def)
    with True Cons show ?thesis by simp
  qed
qed

lemma OnStart_loop_first_failure:
  assumes "list_all (constructible e) pre" and "Enabled r" and "newRuleRunner e r = Inl err"
  shows "OnStart_loop e started (pre @ r # post)
      = (started @ map (projr \<circ> newRuleRunner e) (filter Enabled pre), Some err)"
  using assms(1)
proof (induction pre arbitrary: started)
  case Nil
  show ?case using assms(2,3) by simp
next
  case (Cons p pre)
  show ?case
  proof (cases "Enabled p")
    case False
    with Cons show ?thesis by simp
  next
    case True
    with Cons.prems obtain runner where "newRuleRunner e p = Inr runner"
      by (cases "newRuleRunner e p") (simp_all add: constructible_def)
    with True Cons show ?thesis by simp
  qed
qed

text \<open>
  C6. When every enabled rule can be constructed, the start hook starts one runner for
  each enabled rule, in order, and none for a disabled rule, and returns no error. When
  the construction of an enabled rule fails, the hook returns the error of the first
  such rule (the runners of the enabled rules before it have been started). Every
  watch, timer and synchronization is an effect of the \<open>run\<close> of a started runner, so
  a disabled rule has none.
\<close>

theorem OnStart_enabled_rules:
  "(list_all (constructible e) (Sync cfg)
      \<longrightarrow> OnStart e cfg = (map (projr \<circ> newRuleRunner e) (filter Enabled (Sync cfg)), None))
   \<and> (Sync cfg = pre @ r # post \<and> list_all (constructible e) pre
        \<and> Enabled r \<and> newRuleRunner e r = Inl err
      \<longrightarrow> OnStart e cfg = (map (projr \<circ> newRuleRunner e) (filter Enabled pre), Some err))"
  using OnStart_loop_all [of e "Sync cfg" "[]"] OnStart_loop_first_failure [of e pre r err "[]" post]
  by (simp add: OnStart_def)

theorem OnStart_enabled_rules_witness:
  "list_all (constructible readme_env) [readme_rule, disabled_rule, readme_rule]
   \<and> OnStart readme_env \<lparr>Sync = [readme_rule, disabled_rule, readme_rule]\<rparr>
       = ([readme_runner, readme_runner], None)
   \<and> Enabled bad_rule \<and> newRuleRunner readme_env bad_rule = Inl ErrInvalidUTF8
   \<and> OnStart readme_env \<lparr>Sync = [readme_rule, disabled_rule] @ bad_rule # [readme_rule]\<rparr>
       = ([readme_runner], Some ErrInvalidUTF8)"
proof -
  have a: "list_all (constructible readme_env) [readme_rule, disabled_rule, readme_rule]"
    by (simp add: constructible_def newRuleRunner_readme disabled_rule_def)
  have b: "list_all (constructible readme_env) [readme_rule, disabled_rule]"
    by (simp add: constructible_def newRuleRunner_readme disabled_rule_def)
  have c: "Enabled bad_rule"
    by (simp add: bad_rule_def readme_rule_eq)
  have d: "Enabled readme_rule" "\<not> Enabled disabled_rule"
    by (simp_all add: disabled_rule_def readme_rule_eq)
  from OnStart_enabled_rules
    [of readme_env "\<lparr>Sync = [readme_rule, disabled_rule, readme_rule]\<rparr>" "[]" readme_rule "[]" ErrInvalidUTF8]
    OnStart_enabled_rules
    [of readme_env "\<lparr>Sync = [readme_rule, disabled_rule] @ bad_rule # [readme_rule]\<rparr>"
      "[readme_rule, disabled_rule]" bad_rule "[readme_rule]" ErrInvalidUTF8]
    a b c d newRuleRunner_bad newRuleRunner_readme
  show ?thesis by simp
qed

section \<open>Events on ignored paths and the debounce timer\<close>

lemma handleEvent_ignored:
  assumes "Match (ToSlash (case Rel (srcRoot rr) (Name ev) of Inl err \<Rightarrow> [] | Inr r \<Rightarrow> r)) (ign rr)"
  shows "handleEvent e rr ev st
      = emit (Log (log rr) (MsgIgnored (Op ev)
          (ToSlash (case Rel (srcRoot rr) (Name ev) of Inl err \<Rightarrow> [] | Inr r \<Rightarrow> r)))) st"
  using assms by (simp add: handleEvent_def Let_def)

text \<open>
  C1 fails on the code. The event below is on a path that the rule ignores:
  \<open>handleEvent\<close> logs it and registers no watch, but the main loop calls
  \<open>resetDebounce\<close> after \<open>handleEvent\<close> whatever \<open>handleEvent\<close> did, so the ignored
  event creates and arms the debounce timer.
\<close>

theorem ignored_event_arms_debounce_timer:
  "Match ''cache/x'' (ign readme_runner)
   \<and> handleEvent readme_env readme_runner cache_event init_state
       = emit (Log (log readme_runner) (MsgIgnored Write ''cache/x'')) init_state
   \<and> timer init_state = NoTimer
   \<and> timer (main_loop readme_env readme_runner init_state [FsEvent cache_event]) = Pending
   \<and> trace (main_loop readme_env readme_runner init_state [FsEvent cache_event])
       = [Log (log readme_runner) (MsgIgnored Write ''cache/x''),
          TimerStart 0,
          Log (log readme_runner) (MsgDebounceStarted 0 Write)]"
  by (simp add: handleEvent_cache_event readme_runner_simps Match_cache_event init_state_simps
      resetDebounce_def del: Match.simps)
    (simp add: cache_event_def)

text \<open>
  C7 fails on the code. The rule of the README's example sets no debounce window; the
  decoded rule has the window zero, no default is put in, and the debounce timer is
  armed with zero, not with three seconds.
\<close>

theorem unset_debounce_window_is_zero:
  "yaml_debounce_window readme_yaml = None
   \<and> DebounceWindow (decode_rule readme_yaml) = 0
   \<and> newRuleRunner readme_env (decode_rule readme_yaml) = Inr readme_runner
   \<and> trace (resetDebounce readme_runner Write init_state)
       = [TimerStart 0, Log (log readme_runner) (MsgDebounceStarted 0 Write)]"
  using newRuleRunner_readme
  by (simp add: readme_yaml_def decode_rule_def readme_rule_def resetDebounce_def
      init_state_simps readme_runner_simps)


section \<open>The log level\<close>

lemma byte_lower_byte:
  "byte (lower_byte c) = (if 65 \<le> byte c \<and> byte c \<le> 90 then byte c + 32 else byte c)"
  by (simp add: lower_byte_def byte_def)

lemma lower_byte_eq_iff: "lower_byte c = d \<longleftrightarrow> byte (lower_byte c) = byte d"
  by (simp add: byte_def)

lemma lower_byte_idem: "lower_byte (lower_byte c) = lower_byte c"
  by (auto simp: lower_byte_eq_iff [of "lower_byte c"] byte_lower_byte)

lemma lower_byte_ascii: "byte c < 128 \<Longrightarrow> byte (lower_byte c) < 128"
  by (simp add: byte_lower_byte)

lemma ToLower_ascii:
  "list_all (\<lambda>c. byte c < 128) s \<Longrightarrow> ToLower umap s = map lower_byte s"
  by (simp add: ToLower_def)

lemma ToLower_twice_ascii:
  assumes "list_all (\<lambda>c. byte c < 128) s"
  shows "ToLower umap (ToLower umap s) = map lower_byte s"
proof -
  have "list_all (\<lambda>c. byte c < 128) (map lower_byte s)"
    using assms by (induction s) (simp_all add: lower_byte_ascii)
  then show ?thesis
    using assms by (simp add: ToLower_def lower_byte_idem)
qed

lemma Init_eq:
  "Init umap s =
     (let l = ToLower umap (ToLower umap s) in
      if l = ''panic'' then PanicLevel
      else if l = ''fatal'' then FatalLevel
      else if l = ''error'' then ErrorLevel
      else if l = ''warn'' \<or> l = ''warning'' then WarnLevel
      else if l = ''info'' then InfoLevel
      else if l = ''debug'' then DebugLevel
      else if l = ''trace'' then TraceLevel
      else InfoLevel)"
  by (simp add: Init_def ParseLevel_def Let_def)

text \<open>
  C8, as amended. \<open>Init\<close> lowers the string (an ASCII string letter by letter) and sets
  the level it names: one of \<^verbatim>\<open>trace\<close>, \<^verbatim>\<open>debug\<close>, \<^verbatim>\<open>info\<close>, \<^verbatim>\<open>warn\<close>, \<^verbatim>\<open>error\<close>, and
  also \<^verbatim>\<open>warning\<close>, \<^verbatim>\<open>fatal\<close> and \<^verbatim>\<open>panic\<close>. For every string whose lowered form is none
  of these eight names the level is \<^verbatim>\<open>info\<close>.
\<close>

theorem Init_level:
  "(list_all (\<lambda>c. byte c < 128) s \<longrightarrow> ToLower umap (ToLower umap s) = map lower_byte s)
   \<and> (ToLower umap (ToLower umap s) = ''trace'' \<longrightarrow> Init umap s = TraceLevel)
   \<and> (ToLower umap (ToLower umap s) = ''debug'' \<longrightarrow> Init umap s = DebugLevel)
   \<and> (ToLower umap (ToLower umap s) = ''info'' \<longrightarrow> Init umap s = InfoLevel)
   \<and> (ToLower umap (ToLower umap s) = ''warn'' \<longrightarrow> Init umap s = WarnLevel)
   \<and> (ToLower umap (ToLower umap s) = ''error'' \<longrightarrow> Init umap s = ErrorLevel)
   \<and> (ToLower umap (ToLower umap s) = ''warning'' \<longrightarrow> Init umap s = WarnLevel)
   \<and> (ToLower umap (ToLower umap s) = ''fatal'' \<longrightarrow> Init umap s = FatalLevel)
   \<and> (ToLower umap (ToLower umap s) = ''panic'' \<longrightarrow> Init umap s = PanicLevel)
   \<and> (ToLower umap (ToLower umap s) \<notin> set level_names \<longrightarrow> Init umap s = InfoLevel)"
  using ToLower_twice_ascii [of s umap]
  by (simp add: Init_eq level_names_def)

text \<open>C8 as stated fails: \<^verbatim>\<open>fatal\<close> is none of the five levels of the claim, and the level
  set for it is not \<^verbatim>\<open>info\<close>.\<close>

theorem Init_fatal_counterexample:
  "Init (\<lambda>s. s) ''fatal'' = FatalLevel"
proof -
  have a: "list_all (\<lambda>c. byte c < 128) ''fatal''"
    by (simp add: byte_def)
  have b: "map lower_byte ''fatal'' = ''fatal''"
    by (simp add: lower_byte_eq_iff byte_lower_byte) (simp add: byte_def)
  have c: "ToLower (\<lambda>s. s) (ToLower (\<lambda>s. s) ''fatal'') = ''fatal''"
    using ToLower_twice_ascii [OF a] b by simp
  show ?thesis
    by (simp only: Init_eq c Let_def) simp
qed

lemma lower_DeBuG: "map lower_byte ''DeBuG'' = ''debug''"
  by (simp add: lower_byte_eq_iff byte_lower_byte) (simp add: byte_def)

theorem Init_level_witness:
  "list_all (\<lambda>c. byte c < 128) ''DeBuG''
   \<and> ToLower (\<lambda>s. s) (ToLower (\<lambda>s. s) ''DeBuG'') = ''debug''
   \<and> Init (\<lambda>s. s) ''DeBuG'' = DebugLevel
   \<and> ToLower (\<lambda>s. s) (ToLower (\<lambda>s. s) ''verbose'') \<notin> set level_names
   \<and> Init (\<lambda>s. s) ''verbose'' = InfoLevel"
proof -
  have a: "list_all (\<lambda>c. byte c < 128) ''DeBuG''"
    by (simp add: byte_def)
  have b: "list_all (\<lambda>c. byte c < 128) ''verbose''"
    by (simp add: byte_def)
  have c: "map lower_byte ''verbose'' = ''verbose''"
    by (simp add: lower_byte_eq_iff byte_lower_byte) (simp add: byte_def)
  have d: "ToLower (\<lambda>s. s) (ToLower (\<lambda>s. s) ''verbose'') \<notin> set level_names"
    using b c by (simp add: ToLower_twice_ascii level_names_def)
  from Init_level [of "''DeBuG''" "\<lambda>s. s"] Init_level [of "''verbose''" "\<lambda>s. s"] a d lower_DeBuG
  show ?thesis by simp
qed


section \<open>Every pattern that is valid UTF-8 compiles\<close>

text \<open>
  The translation of a glob, read from the left: a pair of stars gives \<open>dstar\<close>, and any
  other byte \<open>c\<close> gives its unit \<open>u c\<close>. \<open>QuoteMeta\<close> and each of the three passes
  of \<open>ReplaceAll\<close> in \<open>globToRegex\<close> are translations of this form: the units are
  first the quoted bytes, then the star becomes \<^verbatim>\<open>[^/]*\<close>, then the question mark becomes
  the dot.
\<close>

fun glob_map :: "string \<Rightarrow> (char \<Rightarrow> string) \<Rightarrow> string \<Rightarrow> string" where
  "glob_map dstar u [] = []"
| "glob_map dstar u [c] = u c"
| "glob_map dstar u (c # d # s) =
     (if c = CHR ''*'' \<and> d = CHR ''*'' then dstar @ glob_map dstar u s
      else u c @ glob_map dstar u (d # s))"

definition quoted :: "char \<Rightarrow> string" where
  "quoted c = (if special c then [backslash, c] else [c])"

definition quoted2 :: "char \<Rightarrow> string" where
  "quoted2 c = (if c = CHR ''*'' then ''[^/]*'' else quoted c)"

definition quoted3 :: "char \<Rightarrow> string" where
  "quoted3 c = (if c = CHR ''?'' then ''.'' else quoted2 c)"

lemma HasPrefix_simps:
  "HasPrefix s [] = True"
  "HasPrefix [] (d # p) = False"
  "HasPrefix (c # s) (d # p) = (c = d \<and> HasPrefix s p)"
  by (auto simp: HasPrefix_def)

text \<open>\<open>no_match_in p x old\<close>: in \<open>p @ x\<close>, no instance of \<open>old\<close> begins inside \<open>p\<close>.\<close>

fun no_match_in :: "string \<Rightarrow> string \<Rightarrow> string \<Rightarrow> bool" where
  "no_match_in [] x old = True"
| "no_match_in (c # p) x old = (\<not> HasPrefix (c # p @ x) old \<and> no_match_in p x old)"

lemma ReplaceAll_skip:
  "old \<noteq> [] \<Longrightarrow> no_match_in p x old \<Longrightarrow> ReplaceAll (p @ x) old new = p @ ReplaceAll x old new"
  by (induction p) (simp_all add: ReplaceAll_Cons)

lemma ReplaceAll_hit:
  "old \<noteq> [] \<Longrightarrow> ReplaceAll (old @ x) old new = new @ ReplaceAll x old new"
  by (cases old) (simp_all add: ReplaceAll_Cons HasPrefix_def)

lemma special_simps:
  "special backslash" "special (CHR ''*'')" "special (CHR ''?'')" "special (CHR ''.'')"
  "special (CHR ''['')"
  by (simp_all add: special_def)

lemma not_special:
  "\<not> special c \<Longrightarrow> c \<noteq> backslash \<and> c \<noteq> CHR ''*'' \<and> c \<noteq> CHR ''?'' \<and> c \<noteq> CHR ''.'' \<and> c \<noteq> CHR ''[''"
  by (auto simp: special_def)

lemma QuoteMeta_glob_map:
  "QuoteMeta s = glob_map [backslash, CHR ''*'', backslash, CHR ''*''] quoted s"
  by (induction "[backslash, CHR ''*'', backslash, CHR ''*'']" quoted s rule: glob_map.induct)
    (simp_all add: quoted_def special_simps)

text \<open>The first byte of a translation is never a given byte that neither the pair of
  stars nor any unit starts with.\<close>

definition starts_off :: "char \<Rightarrow> string \<Rightarrow> bool" where
  "starts_off b w = (w \<noteq> [] \<and> hd w \<noteq> b)"

lemma starts_off_append: "starts_off b w \<Longrightarrow> \<not> HasPrefix (w @ y) (b # p)"
  by (cases w) (simp_all add: starts_off_def HasPrefix_simps)

lemma glob_map_hd:
  assumes "\<And>c. starts_off b (u c)" and "starts_off b dstar"
  shows "\<not> HasPrefix (glob_map dstar u s) (b # p)"
proof (cases "(dstar, u, s)" rule: glob_map.cases)
  case (1 dstar' u')
  then show ?thesis by (simp add: HasPrefix_simps)
next
  case (2 dstar' u' c)
  then show ?thesis
    using starts_off_append [OF assms(1) [of c], of "[]" p] by simp
next
  case (3 dstar' u' c d s')
  then show ?thesis
    using starts_off_append [OF assms(1) [of c]] starts_off_append [OF assms(2)] by simp
qed

lemma starts_off_quoted: "b = CHR ''*'' \<or> b = CHR ''?'' \<Longrightarrow> starts_off b (quoted c)"
  by (auto simp: starts_off_def quoted_def special_simps dest: not_special)

lemma starts_off_quoted2: "b = CHR ''*'' \<or> b = CHR ''?'' \<Longrightarrow> starts_off b (quoted2 c)"
  using starts_off_quoted [of b c] by (auto simp: quoted2_def starts_off_def)

text \<open>One pass of \<open>ReplaceAll\<close> over a translation, when the pass acts unit by unit.\<close>

lemma ReplaceAll_glob_map:
  assumes old: "old \<noteq> []"
    and pair: "\<And>s. ReplaceAll (dstar @ glob_map dstar u s) old new
               = dstar' @ ReplaceAll (glob_map dstar u s) old new"
    and unit: "\<And>c d s. \<not> (c = CHR ''*'' \<and> d = CHR ''*'') \<Longrightarrow>
                 ReplaceAll (u c @ glob_map dstar u (d # s)) old new
               = u' c @ ReplaceAll (glob_map dstar u (d # s)) old new"
    and last: "\<And>c. ReplaceAll (u c) old new = u' c"
  shows "ReplaceAll (glob_map dstar u s) old new = glob_map dstar' u' s"
proof (induction s rule: induct_list012)
  case 1
  show ?case using old by (simp add: ReplaceAll_Nil)
next
  case (2 c)
  show ?case by (simp add: last)
next
  case (3 c d s)
  then show ?case by (simp add: pair unit)
qed

lemma no_specials_short [simp]:
  "ReplaceAll [c] (a # b # p) new = [c]"
  "ReplaceAll [c, d] (a # b # e # p) new = [c, d]"
  by (simp_all add: ReplaceAll_Cons ReplaceAll_Nil HasPrefix_simps)

lemma pass1:
  "ReplaceAll (glob_map [backslash, CHR ''*'', backslash, CHR ''*''] quoted s)
     [backslash, CHR ''*'', backslash, CHR ''*''] ''.*''
   = glob_map ''.*'' quoted s"
proof (rule ReplaceAll_glob_map)
  show "[backslash, CHR ''*'', backslash, CHR ''*''] \<noteq> []" by simp
next
  fix s
  show "ReplaceAll ([backslash, CHR ''*'', backslash, CHR ''*'']
          @ glob_map [backslash, CHR ''*'', backslash, CHR ''*''] quoted s)
          [backslash, CHR ''*'', backslash, CHR ''*''] ''.*''
      = ''.*'' @ ReplaceAll (glob_map [backslash, CHR ''*'', backslash, CHR ''*''] quoted s)
          [backslash, CHR ''*'', backslash, CHR ''*''] ''.*''"
    by (rule ReplaceAll_hit) simp
next
  fix c d :: char and s :: string
  let ?G = "glob_map [backslash, CHR ''*'', backslash, CHR ''*''] quoted"
  let ?old = "[backslash, CHR ''*'', backslash, CHR ''*'']"
  assume nd: "\<not> (c = CHR ''*'' \<and> d = CHR ''*'')"
  have star: "\<not> HasPrefix (?G (d # s)) (CHR ''*'' # p)" for p
    by (rule glob_map_hd) (simp_all add: starts_off_quoted, simp add: starts_off_def)
  have unit_d: "d \<noteq> CHR ''*'' \<Longrightarrow> \<not> HasPrefix (?G (d # s)) [backslash, CHR ''*'']"
    by (cases s) (auto simp: quoted_def HasPrefix_simps dest: not_special)
  have "no_match_in (quoted c) (?G (d # s)) ?old"
    using nd star unit_d
    by (auto simp: quoted_def HasPrefix_simps dest: not_special)
  then show "ReplaceAll (quoted c @ ?G (d # s)) ?old ''.*''
      = quoted c @ ReplaceAll (?G (d # s)) ?old ''.*''"
    by (simp add: ReplaceAll_skip)
next
  fix c
  show "ReplaceAll (quoted c) [backslash, CHR ''*'', backslash, CHR ''*''] ''.*'' = quoted c"
    by (simp add: quoted_def)
qed


lemma pass2:
  "ReplaceAll (glob_map ''.*'' quoted s) [backslash, CHR ''*''] ''[^/]*''
   = glob_map ''.*'' quoted2 s"
proof (rule ReplaceAll_glob_map)
  show "[backslash, CHR ''*''] \<noteq> []" by simp
next
  fix s
  have "no_match_in ''.*'' (glob_map ''.*'' quoted s) [backslash, CHR ''*'']"
    by (simp add: HasPrefix_simps)
  then show "ReplaceAll (''.*'' @ glob_map ''.*'' quoted s) [backslash, CHR ''*''] ''[^/]*''
      = ''.*'' @ ReplaceAll (glob_map ''.*'' quoted s) [backslash, CHR ''*''] ''[^/]*''"
    by (rule ReplaceAll_skip [rotated]) simp
next
  fix c d :: char and s :: string
  let ?G = "glob_map ''.*'' quoted"
  let ?old = "[backslash, CHR ''*'']"
  have star: "\<not> HasPrefix (?G (d # s)) (CHR ''*'' # p)" for p
    by (rule glob_map_hd) (simp_all add: starts_off_quoted, simp add: starts_off_def)
  show "ReplaceAll (quoted c @ ?G (d # s)) ?old ''[^/]*''
      = quoted2 c @ ReplaceAll (?G (d # s)) ?old ''[^/]*''"
  proof (cases "c = CHR ''*''")
    case True
    then have "quoted c = ?old" by (simp add: quoted_def special_simps)
    then show ?thesis
      using True ReplaceAll_hit [of ?old "?G (d # s)" "''[^/]*''"] by (simp add: quoted2_def)
  next
    case False
    then have "no_match_in (quoted c) (?G (d # s)) ?old"
      using star by (auto simp: quoted_def HasPrefix_simps dest: not_special)
    then show ?thesis
      using False by (simp add: ReplaceAll_skip quoted2_def)
  qed
next
  fix c
  show "ReplaceAll (quoted c) [backslash, CHR ''*''] ''[^/]*'' = quoted2 c"
    by (auto simp: quoted_def quoted2_def ReplaceAll_Cons ReplaceAll_Nil HasPrefix_simps
        special_simps dest: not_special)
qed

lemma pass3:
  "ReplaceAll (glob_map ''.*'' quoted2 s) [backslash, CHR ''?''] ''.''
   = glob_map ''.*'' quoted3 s"
proof (rule ReplaceAll_glob_map)
  show "[backslash, CHR ''?''] \<noteq> []" by simp
next
  fix s
  have "no_match_in ''.*'' (glob_map ''.*'' quoted2 s) [backslash, CHR ''?'']"
    by (simp add: HasPrefix_simps)
  then show "ReplaceAll (''.*'' @ glob_map ''.*'' quoted2 s) [backslash, CHR ''?''] ''.''
      = ''.*'' @ ReplaceAll (glob_map ''.*'' quoted2 s) [backslash, CHR ''?''] ''.''"
    by (rule ReplaceAll_skip [rotated]) simp
next
  fix c d :: char and s :: string
  let ?G = "glob_map ''.*'' quoted2"
  let ?old = "[backslash, CHR ''?'']"
  have qm: "\<not> HasPrefix (?G (d # s)) (CHR ''?'' # p)" for p
    by (rule glob_map_hd) (simp_all add: starts_off_quoted2, simp add: starts_off_def)
  show "ReplaceAll (quoted2 c @ ?G (d # s)) ?old ''.''
      = quoted3 c @ ReplaceAll (?G (d # s)) ?old ''.''"
  proof (cases "c = CHR ''?''")
    case True
    then have "quoted2 c = ?old" by (simp add: quoted2_def quoted_def special_simps)
    then show ?thesis
      using True ReplaceAll_hit [of ?old "?G (d # s)" "''.''"] by (simp add: quoted3_def)
  next
    case False
    then have "no_match_in (quoted2 c) (?G (d # s)) ?old"
      using qm by (auto simp: quoted2_def quoted_def HasPrefix_simps dest: not_special)
    then show ?thesis
      using False by (simp add: ReplaceAll_skip quoted3_def)
  qed
next
  fix c
  show "ReplaceAll (quoted2 c) [backslash, CHR ''?''] ''.'' = quoted3 c"
    by (auto simp: quoted_def quoted2_def quoted3_def ReplaceAll_Cons ReplaceAll_Nil
        HasPrefix_simps special_simps dest: not_special)
qed

lemma globToRegex_glob_map:
  "globToRegex glob = ''^'' @ glob_map ''.*'' quoted3 glob @ ''$''"
  by (simp add: globToRegex_def QuoteMeta_glob_map pass1 pass2 pass3)


lemma DecodeRuneInString_ascii: "byte c < 128 \<Longrightarrow> DecodeRuneInString (c # t) = (byte c, 1)"
  by (simp add: seq_size_def)

lemma decode_multibyte:
  assumes d: "DecodeRuneInString (c # t) = (r, n)" and hi: "128 \<le> byte c" and ok: "n \<noteq> 1"
  shows "2 \<le> n \<and> n \<le> Suc (length t)
     \<and> list_all (\<lambda>b. 128 \<le> byte b) (take n (c # t))
     \<and> (\<forall>x. DecodeRuneInString (take n (c # t) @ x) = (r, n))"
proof -
  have lo: "128 \<le> accept_lo (byte c)"
    by (simp add: accept_lo_def)
  from hi have "seq_size (byte c) \<noteq> 1"
    by (simp add: seq_size_def)
  then consider "seq_size (byte c) = 0" | "seq_size (byte c) = 2" | "seq_size (byte c) = 3"
    | "seq_size (byte c) = 4"
    using seq_size_cases [of "byte c"] by auto
  then show ?thesis
  proof cases
    case 1
    with d ok show ?thesis by simp
  next
    case 2
    with d ok obtain b1 t1 where t: "t = b1 # t1"
      by (cases t) (auto simp: Let_def)
    from d ok 2 lo hi show ?thesis
      by (auto simp: t Let_def decode_multi_def split: if_splits)
  next
    case 3
    with d ok obtain b1 b2 t2 where t: "t = b1 # b2 # t2"
      by (cases t; cases "tl t") (auto simp: Let_def)
    from d ok 3 lo hi show ?thesis
      by (auto simp: t Let_def decode_multi_def continuation_def split: if_splits)
  next
    case 4
    with d ok obtain b1 b2 b3 t3 where t: "t = b1 # b2 # b3 # t3"
      by (cases t; cases "tl t"; cases "tl (tl t)") (auto simp: Let_def)
    from d ok 4 lo hi show ?thesis
      by (auto simp: t Let_def decode_multi_def continuation_def split: if_splits)
  qed
qed


declare DecodeRuneInString.simps(2) [simp del]

text \<open>
  The nodes of the expression of a glob, read rune by rune: a pair of stars is any run
  of runes but the newline, a single star any run of runes but the slash, a question
  mark any rune but the newline, and any other rune is itself.
\<close>

function glob_nodes :: "string \<Rightarrow> node list" where
  "glob_nodes s =
     (if s = [] then []
      else if hd s = CHR ''*'' then
        (if tl s \<noteq> [] \<and> hd (tl s) = CHR ''*'' then Star AnyCharNotNL # glob_nodes (tl (tl s))
         else Star (CharClass True [47]) # glob_nodes (tl s))
      else if hd s = CHR ''?'' then Single AnyCharNotNL # glob_nodes (tl s)
      else Single (Lit (fst (DecodeRuneInString s)))
             # glob_nodes (drop (snd (DecodeRuneInString s)) s))"
  by pat_completeness auto
termination
proof (relation "measure length")
  show "wf (measure length)" by simp
next
  fix s :: string
  assume "s \<noteq> []" and "tl s \<noteq> [] \<and> hd (tl s) = CHR ''*''"
  then show "(tl (tl s), s) \<in> measure length"
    by (cases s; cases "tl s") simp_all
next
  fix s :: string
  assume "s \<noteq> []"
  then show "(tl s, s) \<in> measure length"
    by (cases s) simp_all
next
  fix s :: string
  assume "s \<noteq> []"
  then show "(tl s, s) \<in> measure length"
    by (cases s) simp_all
next
  fix s :: string
  assume "s \<noteq> []"
  then show "(drop (snd (DecodeRuneInString s)) s, s) \<in> measure length"
    using DecodeRuneInString_width [of s] by simp
qed

declare glob_nodes.simps [simp del]

lemma special_ascii: "special c \<Longrightarrow> byte c < 128 \<and> \<not> isalnum (byte c)"
  by (auto simp: special_def byte_def isalnum_def)

lemma glob_map_pair:
  "glob_map dstar u (CHR ''*'' # CHR ''*'' # s) = dstar @ glob_map dstar u s"
  by simp

lemma glob_map_unit:
  "\<not> (c = CHR ''*'' \<and> s \<noteq> [] \<and> hd s = CHR ''*'') \<Longrightarrow>
     glob_map dstar u (c # s) = u c @ glob_map dstar u s"
  by (cases s) auto

lemma quoted3_plain: "128 \<le> byte c \<Longrightarrow> quoted3 c = [c] \<and> c \<noteq> CHR ''*''"
  using special_ascii [of c] by (auto simp: quoted3_def quoted2_def quoted_def byte_def)

lemma glob_map_plain_prefix:
  "list_all (\<lambda>b. 128 \<le> byte b) p \<Longrightarrow>
     glob_map dstar quoted3 (p @ s) = p @ glob_map dstar quoted3 s"
proof (induction p)
  case Nil
  show ?case by simp
next
  case (Cons c p)
  then have "quoted3 c = [c]" and "c \<noteq> CHR ''*''"
    using quoted3_plain [of c] by simp_all
  with Cons show ?case
    by (simp add: glob_map_unit)
qed

lemma parse_dot: "parse_loop stk (CHR ''.'' # t) = parse_loop (Single AnyCharNotNL # stk) t"
  by (simp add: parse_loop.simps(2))

lemma parse_star:
  "parse_loop (Single a # stk) (CHR ''*'' # t) = parse_loop (Star a # stk) t"
  by (simp add: parse_loop.simps(2))

lemma parse_not_slash:
  "parse_loop stk (''[^/]'' @ t) = parse_loop (Single (CharClass True [47]) # stk) t"
  by (simp add: parse_loop.simps(2) parseClass_Cons nextRune_ascii byte_def)

lemma parse_escaped:
  "special c \<Longrightarrow> parse_loop stk (backslash # c # t) = parse_loop (Single (Lit (byte c)) # stk) t"
  using special_ascii [of c] by (simp add: parse_loop.simps(2) nextRune_ascii)

lemma parse_plain_ascii:
  "\<not> special c \<Longrightarrow> byte c < 128 \<Longrightarrow>
     parse_loop stk (c # t) = parse_loop (Single (Lit (byte c)) # stk) t"
  by (auto simp: parse_loop.simps(2) nextRune_ascii special_def)

lemma parse_multibyte:
  assumes "DecodeRuneInString (c # t) = (r, n)" and "128 \<le> byte c" and "n \<noteq> 1"
  shows "parse_loop stk (take n (c # t) @ x) = parse_loop (Single (Lit r) # stk) x"
proof -
  from decode_multibyte [OF assms]
  have n: "2 \<le> n" "n \<le> Suc (length t)"
    and d: "DecodeRuneInString (take n (c # t) @ x) = (r, n)"
    by simp_all
  from n obtain m where m: "n = Suc m" by (cases n) simp_all
  have ns: "\<not> special c" using assms(2) special_ascii [of c] by auto
  have nr: "nextRune (c # take m t @ x) = Inr (r, x)"
    using d n by (simp add: nextRune_def m)
  show ?thesis
    using ns nr by (auto simp: m parse_loop.simps(2) special_def)
qed


lemma ValidString_ascii: "byte c < 128 \<Longrightarrow> ValidString (c # s) = ValidString s"
  by (simp add: ValidString.simps [of "c # s"] DecodeRuneInString_ascii RuneError_def)

lemma ValidString_step:
  assumes "ValidString s" and "s \<noteq> []"
  shows "DecodeRuneInString s \<noteq> (RuneError, 1)
     \<and> ValidString (drop (snd (DecodeRuneInString s)) s)"
  using assms by (simp add: ValidString.simps [of s] split: if_splits)

lemma parse_glob:
  "ValidString s \<Longrightarrow>
     parse_loop stk (glob_map ''.*'' quoted3 s @ ''$'') = Inr (rev stk @ glob_nodes s @ [EndText])"
proof (induction s arbitrary: stk rule: glob_nodes.induct)
  case (1 s)
  let ?tr = "glob_map ''.*'' quoted3"
  show ?case
  proof (cases s)
    case Nil
    then show ?thesis
      by (simp add: glob_nodes.simps [of "[]"] parse_loop.simps(2))
  next
    case (Cons c t)
    have asc: "byte c < 128 \<Longrightarrow> ValidString t"
      using "1.prems" Cons by (simp add: ValidString_ascii)
    consider (pair) "c = CHR ''*''" "t \<noteq> []" "hd t = CHR ''*''"
      | (star) "c = CHR ''*''" "\<not> (t \<noteq> [] \<and> hd t = CHR ''*'')"
      | (any) "c = CHR ''?''"
      | (escaped) "c \<noteq> CHR ''*''" "c \<noteq> CHR ''?''" "special c"
      | (plain) "\<not> special c" "byte c < 128"
      | (multi) "128 \<le> byte c"
      using special_simps by (cases "byte c < 128") auto
    then show ?thesis
    proof cases
      case pair
      then obtain t' where t: "t = CHR ''*'' # t'" by (cases t) auto
      have v: "ValidString t'"
        using asc pair t by (simp add: byte_def ValidString_ascii)
      have "parse_loop (Star AnyCharNotNL # stk) (?tr t' @ ''$'')
          = Inr (rev (Star AnyCharNotNL # stk) @ glob_nodes t' @ [EndText])"
        using "1.IH"(1) [of "Star AnyCharNotNL # stk"] Cons pair t v by simp
      then show ?thesis
        using Cons pair t
        by (simp add: glob_nodes.simps [of "CHR ''*'' # CHR ''*'' # t'"] parse_dot parse_star)
    next
      case star
      have v: "ValidString t"
        using asc star by (simp add: byte_def)
      have tr: "?tr (c # t) = ''[^/]*'' @ ?tr t"
        using star by (simp add: glob_map_unit quoted3_def quoted2_def)
      have "parse_loop (Star (CharClass True [47]) # stk) (?tr t @ ''$'')
          = Inr (rev (Star (CharClass True [47]) # stk) @ glob_nodes t @ [EndText])"
        using "1.IH"(2) [of "Star (CharClass True [47]) # stk"] Cons star v by simp
      then show ?thesis
        using Cons star tr parse_not_slash [of stk "CHR ''*'' # ?tr t @ ''$''"]
        by (simp add: glob_nodes.simps [of "CHR ''*'' # t"] parse_star)
    next
      case any
      have v: "ValidString t"
        using asc any by (simp add: byte_def)
      have tr: "?tr (c # t) = ''.'' @ ?tr t"
        using any by (simp add: glob_map_unit quoted3_def)
      have "parse_loop (Single AnyCharNotNL # stk) (?tr t @ ''$'')
          = Inr (rev (Single AnyCharNotNL # stk) @ glob_nodes t @ [EndText])"
        using "1.IH"(3) [of "Single AnyCharNotNL # stk"] Cons any v by simp
      then show ?thesis
        using Cons any tr by (simp add: glob_nodes.simps [of "CHR ''?'' # t"] parse_dot)
    next
      case escaped
      have a: "byte c < 128" using special_ascii [OF escaped(3)] by simp
      have v: "ValidString t" using asc a by simp
      have tr: "?tr (c # t) = backslash # c # ?tr t"
        using escaped by (simp add: glob_map_unit quoted3_def quoted2_def quoted_def)
      have "parse_loop (Single (Lit (byte c)) # stk) (?tr t @ ''$'')
          = Inr (rev (Single (Lit (byte c)) # stk) @ glob_nodes t @ [EndText])"
        using "1.IH"(4) [of "Single (Lit (byte c)) # stk"] Cons escaped v a
        by (simp add: DecodeRuneInString_ascii)
      then show ?thesis
        using Cons escaped tr a
        by (simp add: glob_nodes.simps [of "c # t"] parse_escaped DecodeRuneInString_ascii)
    next
      case plain
      have v: "ValidString t" using asc plain by simp
      have ne: "c \<noteq> CHR ''*''" "c \<noteq> CHR ''?''"
        using not_special [OF plain(1)] by simp_all
      have tr: "?tr (c # t) = c # ?tr t"
        using plain ne by (simp add: glob_map_unit quoted3_def quoted2_def quoted_def)
      have "parse_loop (Single (Lit (byte c)) # stk) (?tr t @ ''$'')
          = Inr (rev (Single (Lit (byte c)) # stk) @ glob_nodes t @ [EndText])"
        using "1.IH"(4) [of "Single (Lit (byte c)) # stk"] Cons plain ne v
        by (simp add: DecodeRuneInString_ascii)
      then show ?thesis
        using Cons plain ne tr
        by (simp add: glob_nodes.simps [of "c # t"] parse_plain_ascii DecodeRuneInString_ascii)
    next
      case multi
      obtain r n where d: "DecodeRuneInString (c # t) = (r, n)"
        by (cases "DecodeRuneInString (c # t)")
      have step: "DecodeRuneInString (c # t) \<noteq> (RuneError, 1)"
        "ValidString (drop n (c # t))"
        using ValidString_step [of s] "1.prems" Cons d by simp_all
      have n1: "n \<noteq> 1"
      proof
        assume "n = 1"
        with d multi have "DecodeRuneInString (c # t) = (RuneError, 1)"
          by (auto simp: DecodeRuneInString.simps(2) Let_def seq_size_def decode_multi_def
              split: if_splits)
        with step(1) show False by simp
      qed
      note m = decode_multibyte [OF d multi n1]
      have ne: "c \<noteq> CHR ''*''" "c \<noteq> CHR ''?''"
        using multi by (auto simp: byte_def)
      have split: "c # t = take n (c # t) @ drop n (c # t)" by simp
      have tr: "?tr (c # t) = take n (c # t) @ ?tr (drop n (c # t))"
        using glob_map_plain_prefix [of "take n (c # t)" "''.*''" "drop n (c # t)"] m by simp
      have "parse_loop (Single (Lit r) # stk) (?tr (drop n (c # t)) @ ''$'')
          = Inr (rev (Single (Lit r) # stk) @ glob_nodes (drop n (c # t)) @ [EndText])"
        using "1.IH"(4) [of "Single (Lit r) # stk"] Cons ne d step(2) by simp
      then show ?thesis
        using Cons ne d parse_multibyte [OF d multi n1, of stk "?tr (drop n (c # t)) @ ''$''"]
        by (simp only: tr append_assoc) (simp add: glob_nodes.simps [of "c # t"])
    qed
  qed
qed


text \<open>The compiled expression of a cleaned pattern.\<close>

definition glob_regexp :: "string \<Rightarrow> Regexp" where
  "glob_regexp p = \<lparr>expr = globToRegex p, prog = BeginText # glob_nodes p @ [EndText]\<rparr>"

lemma regexp_Compile_glob:
  assumes "ValidString p" and "\<not> refused lim (globToRegex p)"
  shows "regexp_Compile lim (globToRegex p) = Inr (glob_regexp p)"
proof -
  have "parse_loop [] (globToRegex p) = parse_loop [BeginText] (glob_map ''.*'' quoted3 p @ ''$'')"
    by (simp add: globToRegex_glob_map parse_loop.simps(2))
  also have "\<dots> = Inr (BeginText # glob_nodes p @ [EndText])"
    using parse_glob [OF assms(1), of "[BeginText]"] by simp
  finally show ?thesis
    using assms(2) by (simp add: regexp_Compile_def glob_regexp_def)
qed

lemma compile_one_valid:
  "ValidString (Clean g) \<Longrightarrow> \<not> refused lim (globToRegex (ToSlash (Clean g))) \<Longrightarrow>
     compile_one lim g = Inr (glob_regexp (Clean g))"
  by (simp add: compile_one_def ToSlash_def regexp_Compile_glob)

lemma Compile_valid_patterns:
  assumes "list_all (\<lambda>g. ValidString (Clean g)
             \<and> \<not> refused lim (globToRegex (ToSlash (Clean g)))) patterns"
  shows "Compile lim root patterns = Inr (map (\<lambda>g. glob_regexp (Clean g)) patterns)"
proof -
  have "map (compile_one lim) patterns = map Inr (map (\<lambda>g. glob_regexp (Clean g)) patterns)"
    using assms by (induction patterns) (simp_all add: compile_one_valid)
  then show ?thesis
    by (simp add: Compile_Inr_iff)
qed


lemma ValidString_Nil: "ValidString []"
  by (simp add: ValidString.simps [of "[]"])

lemma decode_width_one:
  "128 \<le> byte c \<Longrightarrow> snd (DecodeRuneInString (c # t)) = 1 \<Longrightarrow>
     DecodeRuneInString (c # t) = (RuneError, 1)"
  by (auto simp: DecodeRuneInString.simps(2) Let_def seq_size_def decode_multi_def
      split: if_splits)

lemma decode_append:
  assumes "s \<noteq> []" and "DecodeRuneInString s \<noteq> (RuneError, 1)"
  shows "DecodeRuneInString (s @ b) = DecodeRuneInString s"
proof -
  from assms(1) obtain c t where s: "s = c # t" by (cases s) auto
  obtain r n where d: "DecodeRuneInString (c # t) = (r, n)"
    by (cases "DecodeRuneInString (c # t)")
  show ?thesis
  proof (cases "byte c < 128")
    case True
    then show ?thesis by (simp add: s DecodeRuneInString_ascii)
  next
    case False
    then have hi: "128 \<le> byte c" by simp
    have n1: "n \<noteq> 1"
      using decode_width_one [OF hi, of t] assms(2) d s by auto
    from decode_multibyte [OF d hi n1]
    have "DecodeRuneInString (take n (c # t) @ drop n (c # t) @ b) = (r, n)"
      by blast
    moreover have "take n (c # t) @ drop n (c # t) @ b = (c # t) @ b"
      by (simp only: append_assoc [symmetric] append_take_drop_id)
    ultimately show ?thesis
      using d s by simp
  qed
qed

lemma ValidString_unfold:
  "s \<noteq> [] \<Longrightarrow> ValidString s \<longleftrightarrow>
     DecodeRuneInString s \<noteq> (RuneError, 1) \<and> ValidString (drop (snd (DecodeRuneInString s)) s)"
  by (simp add: ValidString.simps [of s])

lemma ValidString_append:
  "ValidString a \<Longrightarrow> ValidString b \<Longrightarrow> ValidString (a @ b)"
proof (induction a rule: ValidString.induct)
  case (1 s)
  show ?case
  proof (cases "s = []")
    case True
    with "1.prems" show ?thesis by simp
  next
    case False
    from "1.prems"(1) False have ok: "DecodeRuneInString s \<noteq> (RuneError, 1)"
      and rest: "ValidString (drop (snd (DecodeRuneInString s)) s)"
      by (simp_all add: ValidString_unfold)
    have w: "snd (DecodeRuneInString s) \<le> length s"
      using DecodeRuneInString_width [OF False] by simp
    have "ValidString (drop (snd (DecodeRuneInString s)) s @ b)"
      using "1.IH" False ok rest "1.prems"(2) by simp
    then show ?thesis
      using False ok w decode_append [OF False ok, of b]
      by (simp add: ValidString_unfold [of "s @ b"])
  qed
qed

lemma decode_before_ascii:
  assumes "a \<noteq> []" and "byte c < 128" and "DecodeRuneInString (a @ c # b) \<noteq> (RuneError, 1)"
  shows "DecodeRuneInString a = DecodeRuneInString (a @ c # b)"
proof -
  from assms(1) obtain d t where a: "a = d # t" by (cases a) auto
  obtain r n where dec: "DecodeRuneInString (d # t @ c # b) = (r, n)"
    by (cases "DecodeRuneInString (d # t @ c # b)")
  show ?thesis
  proof (cases "byte d < 128")
    case True
    then show ?thesis by (simp add: a DecodeRuneInString_ascii)
  next
    case False
    then have hi: "128 \<le> byte d" by simp
    have n1: "n \<noteq> 1"
      using decode_width_one [OF hi, of "t @ c # b"] assms(3) dec a by auto
    note m = decode_multibyte [OF dec hi n1]
    have le: "n \<le> length (d # t)"
    proof (rule ccontr)
      assume "\<not> n \<le> length (d # t)"
      then have "c \<in> set (take n (d # t @ c # b))"
        by (simp add: take_Cons' take_append split: if_splits)
      with m assms(2) show False
        by (auto simp: list_all_iff)
    qed
    from m have "DecodeRuneInString (take n (d # t @ c # b) @ drop n (d # t)) = (r, n)"
      by blast
    moreover have "take n (d # t @ c # b) = take n (d # t)"
      using le take_append [of n "d # t" "c # b"] by simp
    moreover have "take n (d # t) @ drop n (d # t) = d # t"
      by (simp only: append_take_drop_id)
    ultimately show ?thesis
      using dec a by simp
  qed
qed


lemma ValidString_split:
  "byte c < 128 \<Longrightarrow> ValidString (a @ c # b) \<Longrightarrow> ValidString a \<and> ValidString b"
proof (induction a rule: length_induct)
  case (1 a)
  show ?case
  proof (cases "a = []")
    case True
    with "1.prems" show ?thesis
      by (simp add: ValidString_Nil ValidString_ascii)
  next
    case False
    let ?n = "snd (DecodeRuneInString (a @ c # b))"
    from "1.prems"(2) have ok: "DecodeRuneInString (a @ c # b) \<noteq> (RuneError, 1)"
      and rest: "ValidString (drop ?n (a @ c # b))"
      by (simp_all add: ValidString_unfold)
    have eq: "DecodeRuneInString a = DecodeRuneInString (a @ c # b)"
      by (rule decode_before_ascii [OF False "1.prems"(1) ok])
    have w: "0 < ?n" "?n \<le> length a"
      using DecodeRuneInString_width [OF False] eq by simp_all
    then have "ValidString (drop ?n a @ c # b)"
      using rest by simp
    moreover have "length (drop ?n a) < length a"
      using w False by simp
    ultimately have "ValidString (drop ?n a) \<and> ValidString b"
      using "1.IH" "1.prems"(1) by blast
    then show ?thesis
      using False ok eq by (simp add: ValidString_unfold [of a])
  qed
qed

lemma split_sep_no_slash: "CHR ''/'' \<notin> set e \<Longrightarrow> split_sep e = [e]"
  by (induction e) auto

lemma split_sep_first:
  "CHR ''/'' \<notin> set e \<Longrightarrow> split_sep (e @ CHR ''/'' # rest) = e # split_sep rest"
  by (induction e) auto

lemma ValidString_split_sep:
  "ValidString s \<Longrightarrow> list_all ValidString (split_sep s)"
proof (induction s rule: length_induct)
  case (1 s)
  show ?case
  proof (cases "CHR ''/'' \<in> set s")
    case False
    with "1.prems" show ?thesis by (simp add: split_sep_no_slash)
  next
    case True
    then obtain e rest where s: "s = e @ CHR ''/'' # rest" and e: "CHR ''/'' \<notin> set e"
      by (auto dest: split_list_first)
    have "ValidString e \<and> ValidString rest"
      using ValidString_split [of "CHR ''/''" e rest] "1.prems" s by (simp add: byte_def)
    moreover have "list_all ValidString (split_sep rest)"
      using "1.IH" s calculation by simp
    ultimately show ?thesis
      by (simp add: s split_sep_first [OF e])
  qed
qed

lemma ValidString_dots: "ValidString ''.''" "ValidString ''..''"
  by (simp_all add: ValidString_ascii byte_def ValidString_Nil)

lemma ValidString_clean_elems:
  "list_all ValidString out \<Longrightarrow> list_all ValidString es \<Longrightarrow>
     list_all ValidString (clean_elems rooted out es)"
proof (induction es arbitrary: out)
  case Nil
  then show ?case by (simp add: list_all_iff)
next
  case (Cons e es)
  then show ?case
    by (cases out) (auto simp: ValidString_dots simp del: clean_elems.simps(2)
        simp add: clean_elems.simps(2) [of rooted _ e es])
qed

lemma ValidString_join_sep: "list_all ValidString es \<Longrightarrow> ValidString (join_sep es)"
proof (induction es rule: join_sep.induct)
  case 1
  show ?case by (simp add: ValidString_Nil)
next
  case (2 e)
  then show ?case by simp
next
  case (3 e d es)
  then have "ValidString (CHR ''/'' # join_sep (d # es))"
    by (simp add: ValidString_ascii byte_def)
  with 3 show ?case
    by (simp add: ValidString_append)
qed

lemma ValidString_Clean: "ValidString g \<Longrightarrow> ValidString (Clean g)"
proof (cases g)
  case Nil
  then show ?thesis by (simp add: Clean_def ValidString_dots)
next
  case (Cons c rest)
  assume v: "ValidString g"
  show ?thesis
  proof (cases "c = CHR ''/''")
    case True
    with v Cons have "ValidString rest"
      by (simp add: ValidString_ascii byte_def)
    then have "ValidString (join_sep (clean_elems True [] (split_sep rest)))"
      by (intro ValidString_join_sep ValidString_clean_elems ValidString_split_sep) simp_all
    then show ?thesis
      using True Cons by (simp add: Clean_def ValidString_ascii byte_def)
  next
    case False
    have "ValidString (join_sep (clean_elems False [] (split_sep g)))"
      using v by (intro ValidString_join_sep ValidString_clean_elems ValidString_split_sep) simp_all
    then show ?thesis
      using False Cons by (simp add: Clean_def Let_def ValidString_dots)
  qed
qed

lemma quoted3_length: "length (quoted3 c) \<le> 5"
  by (simp add: quoted3_def quoted2_def quoted_def)

lemma glob_map_length: "length (glob_map ''.*'' quoted3 s) \<le> 5 * length s"
proof (induction "''.*''" quoted3 s rule: glob_map.induct)
  case 1
  show ?case by simp
next
  case (2 c)
  show ?case using quoted3_length [of c] by simp
next
  case (3 c d s)
  then show ?case using quoted3_length [of c] by auto
qed

lemma globToRegex_length: "length (globToRegex p) \<le> 5 * length p + 2"
  using glob_map_length [of p] by (simp add: globToRegex_glob_map)

text \<open>
  A pattern of fewer than 200000 bytes is never refused for its size: \<open>Clean\<close> makes a
  path no longer (the empty path apart), and \<open>globToRegex\<close> writes at most five bytes
  for each byte of the pattern, and the two anchors. \<open>joined_size\<close> counts the bytes of
  a list of elements once joined, one separator after each.
\<close>

fun joined_size :: "string list \<Rightarrow> nat" where
  "joined_size [] = 0"
| "joined_size (e # es) = Suc (length e) + joined_size es"

lemma joined_size_append: "joined_size (xs @ ys) = joined_size xs + joined_size ys"
  by (induction xs) simp_all

lemma joined_size_rev: "joined_size (rev xs) = joined_size xs"
  by (induction xs) (simp_all add: joined_size_append)

lemma join_sep_length: "length (join_sep es) = joined_size es - 1"
  by (induction es rule: join_sep.induct) simp_all

lemma split_sep_size: "joined_size (split_sep s) = Suc (length s)"
  by (induction s) (auto split: list.splits)

lemma clean_elems_size:
  "joined_size (clean_elems rooted out es) \<le> joined_size out + joined_size es"
proof (induction es arbitrary: out)
  case Nil
  show ?case by (simp add: joined_size_rev)
next
  case (Cons e es)
  show ?case
  proof (cases out)
    case Nil
    then show ?thesis
      using Cons.IH [of "[]"] Cons.IH [of "[''..'']"] Cons.IH [of "[e]"]
      by (auto simp del: clean_elems.simps(2) simp add: clean_elems.simps(2) [of rooted _ e es])
  next
    case (Cons x out')
    then show ?thesis
      using Cons.IH [of out'] Cons.IH [of "''..'' # out"] Cons.IH [of "e # out"] Cons.IH [of out]
      by (auto simp del: clean_elems.simps(2) simp add: clean_elems.simps(2) [of rooted _ e es])
  qed
qed

lemma Clean_length: "length (Clean g) \<le> max 1 (length g)"
proof (cases g)
  case Nil
  then show ?thesis by (simp add: Clean_def)
next
  case (Cons c rest)
  show ?thesis
  proof (cases "c = CHR ''/''")
    case True
    have "joined_size (clean_elems True [] (split_sep rest)) \<le> Suc (length rest)"
      using clean_elems_size [of True "[]" "split_sep rest"] by (simp add: split_sep_size)
    then show ?thesis
      using True Cons by (simp add: Clean_def join_sep_length)
  next
    case False
    define es where "es = clean_elems False [] (split_sep g)"
    have "joined_size es \<le> Suc (length g)"
      using clean_elems_size [of False "[]" "split_sep g"]
      by (simp add: es_def split_sep_size)
    then have j: "length (join_sep es) \<le> length g"
      by (simp add: join_sep_length)
    have "Clean g = (if join_sep es = [] then ''.'' else join_sep es)"
      using False by (simp add: Clean_def Let_def es_def Cons)
    then show ?thesis
      using j Cons by (simp split: if_splits)
  qed
qed

lemma short_pattern_not_refused:
  assumes "length g < 200000"
  shows "\<not> refused lim (globToRegex (ToSlash (Clean g)))"
proof -
  have "length (globToRegex (Clean g)) \<le> 5 * length (Clean g) + 2"
    by (rule globToRegex_length)
  moreover have "length (Clean g) \<le> max 1 (length g)"
    by (rule Clean_length)
  ultimately have "length (globToRegex (Clean g)) \<le> 1000000"
    using assms by arith
  then show ?thesis
    by (simp add: refused_def ToSlash_def)
qed

lemma compile_one_too_large:
  assumes "ValidString (Clean g)" and "refused lim (globToRegex (ToSlash (Clean g)))"
  shows "compile_one lim g = Inl ErrLarge"
proof -
  have "parse_loop [] (globToRegex (Clean g))
      = parse_loop [BeginText] (glob_map ''.*'' quoted3 (Clean g) @ ''$'')"
    by (simp add: globToRegex_glob_map parse_loop.simps(2))
  also have "\<dots> = Inr (BeginText # glob_nodes (Clean g) @ [EndText])"
    using parse_glob [OF assms(1), of "[BeginText]"] by simp
  finally show ?thesis
    using assms(2) by (simp add: compile_one_def regexp_Compile_def ToSlash_def)
qed

text \<open>A pattern of more than \<^verbatim>\<open>maxRunes\<close> letters is valid UTF-8 and is refused for its
  size, whatever the parameter says.\<close>

lemma glob_map_letters:
  "u c = [c] \<Longrightarrow> c \<noteq> CHR ''*'' \<Longrightarrow> glob_map dstar u (replicate n c) = replicate n c"
  by (induction n) (simp_all add: glob_map_unit)

lemma glob_nodes_letters:
  assumes "byte c < 128" and "c \<noteq> CHR ''*''" and "c \<noteq> CHR ''?''"
  shows "glob_nodes (replicate n c) = replicate n (Single (Lit (byte c)))"
proof (induction n)
  case 0
  show ?case by (simp add: glob_nodes.simps [of "[]"])
next
  case (Suc n)
  then show ?case
    using assms by (simp add: glob_nodes.simps [of "c # replicate n c"] DecodeRuneInString_ascii)
qed

lemma literal_runes_letters:
  "literal_runes (replicate n (Single (Lit r)) @ ns) = n + literal_runes ns"
  by (induction n) simp_all

lemma ValidString_letters: "byte c < 128 \<Longrightarrow> ValidString (replicate n c)"
  by (induction n) (simp_all add: ValidString_Nil ValidString_ascii)

lemma Clean_one_element:
  assumes "g \<noteq> []" and "CHR ''/'' \<notin> set g" and "g \<noteq> ''.''" and "g \<noteq> ''..''"
  shows "Clean g = g"
proof -
  from assms(1) obtain c t where g: "g = c # t" by (cases g) auto
  have c: "c \<noteq> CHR ''/''" using assms(2) g by auto
  have s: "split_sep g = [g]"
    using assms(2) by (rule split_sep_no_slash)
  have k: "clean_elems False [] [g] = [g]"
    using assms(1,3,4) by (simp add: clean_elems.simps(2) [of False "[]" g "[]"])
  have "Clean g = (if join_sep (clean_elems False [] (split_sep g)) = [] then ''.''
      else join_sep (clean_elems False [] (split_sep g)))"
    unfolding g using c by (simp add: Clean_def Let_def)
  then show ?thesis
    using assms(1) by (simp add: s k)
qed

lemma Clean_letters:
  assumes "0 < n" and "c \<noteq> CHR ''/''" and "c \<noteq> CHR ''.''"
  shows "Clean (replicate n c) = replicate n c"
proof -
  from assms(1) obtain m where n: "n = Suc m" by (cases n) auto
  show ?thesis
    using assms(2,3) by (intro Clean_one_element) (simp_all add: n)
qed

lemma Compile_many_letters:
  assumes "maxRunes < n"
  shows "Compile lim root [replicate n (CHR ''a'')] = Inl ErrLarge"
proof -
  let ?g = "replicate n (CHR ''a'')"
  have n: "0 < n" "1000000 < n"
    using assms by (simp_all add: maxRunes_def)
  have c: "Clean ?g = ?g"
    using n(1) by (simp add: Clean_letters)
  have v: "ValidString ?g"
    by (simp add: ValidString_letters byte_def)
  have q: "quoted3 (CHR ''a'') = ''a''"
    by (simp add: quoted3_def quoted2_def quoted_def special_def)
  have e: "globToRegex ?g = ''^'' @ ?g @ ''$''"
    by (simp add: globToRegex_glob_map glob_map_letters q)
  have "parse_loop [] (globToRegex ?g)
      = parse_loop [BeginText] (glob_map ''.*'' quoted3 ?g @ ''$'')"
    by (simp add: globToRegex_glob_map parse_loop.simps(2))
  also have "\<dots> = Inr (BeginText # glob_nodes ?g @ [EndText])"
    using parse_glob [OF v, of "[BeginText]"] by simp
  finally have p: "parse_loop [] (globToRegex ?g)
      = Inr (BeginText # replicate n (Single (Lit 97)) @ [EndText])"
    by (simp add: glob_nodes_letters byte_def)
  have "refused lim (globToRegex ?g)"
    using n(2) assms by (simp add: refused_def p literal_runes_letters) (simp add: e)
  then have "compile_one lim ?g = Inl ErrLarge"
    using compile_one_too_large [of ?g lim] v c by (simp add: ToSlash_def)
  then show ?thesis
    by (simp add: Compile_Cons)
qed

lemma Compile_34_million_letters:
  "Compile lim root [replicate 34000000 (CHR ''a'')] = Inl ErrLarge"
  by (rule Compile_many_letters) (simp add: maxRunes_def)

text \<open>
  C10, as amended. For every list of patterns that are valid UTF-8, whatever
  metacharacters they hold, and that the regexp library does not refuse for their
  size (it refuses no pattern of fewer than 200000 bytes), \<open>Compile\<close> returns no error:
  it returns one compiled expression for each pattern, in order, which is the
  translation of the cleaned pattern, with the source text that \<open>globToRegex\<close> writes.
\<close>

theorem Compile_valid_utf8:
  assumes "list_all (\<lambda>g. ValidString g
             \<and> (length g < 200000 \<or> \<not> refused too_large (globToRegex (ToSlash (Clean g))))) patterns"
  shows "Compile too_large root patterns = Inr (map (\<lambda>g. glob_regexp (Clean g)) patterns)
     \<and> length (map (\<lambda>g. glob_regexp (Clean g)) patterns) = length patterns"
proof -
  have "ValidString (Clean g) \<and> \<not> refused too_large (globToRegex (ToSlash (Clean g)))"
    if "g \<in> set patterns" for g
  proof -
    from that assms have v: "ValidString g"
      and l: "length g < 200000 \<or> \<not> refused too_large (globToRegex (ToSlash (Clean g)))"
      by (simp_all add: list_all_iff)
    from l have "\<not> refused too_large (globToRegex (ToSlash (Clean g)))"
      using short_pattern_not_refused [of g too_large] by auto
    with v show ?thesis
      by (simp add: ValidString_Clean)
  qed
  then have "list_all (\<lambda>g. ValidString (Clean g)
      \<and> \<not> refused too_large (globToRegex (ToSlash (Clean g)))) patterns"
    by (simp add: list_all_iff)
  then show ?thesis
    by (simp add: Compile_valid_patterns)
qed

text \<open>C10 as stated fails: a pattern that is not valid UTF-8 does not compile.\<close>

theorem Compile_invalid_utf8_counterexample:
  "Compile strict_size_check ''/src'' [[CHR 0xFF]] = Inl ErrInvalidUTF8"
  by (simp add: eval_simps nextRune_def seq_size_def RuneError_def DecodeRuneInString.simps(2))

theorem Compile_valid_utf8_witness:
  "list_all (\<lambda>g. ValidString g
      \<and> (length g < 200000 \<or> \<not> refused strict_size_check (globToRegex (ToSlash (Clean g)))))
     [''a+(b).tmp'', ''**/[x]{?}$'', [CHR 0xC3, CHR 0xA9, CHR ''*'']]
   \<and> Compile strict_size_check ''/src''
         [''a+(b).tmp'', ''**/[x]{?}$'', [CHR 0xC3, CHR 0xA9, CHR ''*'']]
       = Inr [glob_regexp ''a+(b).tmp'', glob_regexp ''**/[x]{?}$'',
              glob_regexp [CHR 0xC3, CHR 0xA9, CHR ''*'']]"
proof -
  have e: "ValidString [CHR 0xC3, CHR 0xA9, CHR ''*'']"
    by (simp add: ValidString_unfold DecodeRuneInString.simps(2) byte_def seq_size_def
        decode_multi_def accept_lo_def accept_hi_def RuneError_def ValidString_ascii
        ValidString_Nil)
  have v: "list_all (\<lambda>g. ValidString g
      \<and> (length g < 200000 \<or> \<not> refused strict_size_check (globToRegex (ToSlash (Clean g)))))
     [''a+(b).tmp'', ''**/[x]{?}$'', [CHR 0xC3, CHR 0xA9, CHR ''*'']]"
    using e by (simp add: ValidString_ascii ValidString_Nil byte_def)
  have c: "Clean ''a+(b).tmp'' = ''a+(b).tmp''" "Clean ''**/[x]{?}$'' = ''**/[x]{?}$''"
    "Clean [CHR 0xC3, CHR 0xA9, CHR ''*''] = [CHR 0xC3, CHR 0xA9, CHR ''*'']"
    by (simp_all add: Clean_def)
  from Compile_valid_utf8 [OF v, of "''/src''"] c have
    "Compile strict_size_check ''/src''
         [''a+(b).tmp'', ''**/[x]{?}$'', [CHR 0xC3, CHR 0xA9, CHR ''*'']]
       = Inr [glob_regexp ''a+(b).tmp'', glob_regexp ''**/[x]{?}$'',
              glob_regexp [CHR 0xC3, CHR 0xA9, CHR ''*'']]"
    by simp
  with v show ?thesis by blast
qed

section \<open>The debounce timer\<close>

text \<open>The number of debounce timers that a trace creates, the reasons of the
  synchronizations that a trace runs, in order (the field \<^verbatim>\<open>reason\<close> of the logger that
  each call of \<open>RSync\<close> is given), the number of them that are tagged \<^verbatim>\<open>debounce\<close>, and
  the duration that the last \<^verbatim>\<open>time.AfterFunc\<close> or \<^verbatim>\<open>Reset\<close> of a trace was given.\<close>

fun timer_starts :: "effect list \<Rightarrow> nat" where
  "timer_starts [] = 0"
| "timer_starts (TimerStart d # xs) = Suc (timer_starts xs)"
| "timer_starts (x # xs) = timer_starts xs"

fun sync_reasons :: "effect list \<Rightarrow> string option list" where
  "sync_reasons [] = []"
| "sync_reasons (Log l (MsgGsutil args) # xs) = map_of l ''reason'' # sync_reasons xs"
| "sync_reasons (x # xs) = sync_reasons xs"

definition debounce_syncs :: "effect list \<Rightarrow> nat" where
  "debounce_syncs tr = length (filter (\<lambda>r. r = Some ''debounce'') (sync_reasons tr))"

fun armed_with :: "effect \<Rightarrow> Duration option" where
  "armed_with (TimerStart d) = Some d"
| "armed_with (TimerReset d) = Some d"
| "armed_with x = None"

fun last_armed :: "effect list \<Rightarrow> Duration option" where
  "last_armed [] = None"
| "last_armed (x # xs) = (case last_armed xs of Some d \<Rightarrow> Some d | None \<Rightarrow> armed_with x)"

text \<open>
  Time is a number of nanoseconds. The main loop is one thread: it takes up what its
  channels deliver one at a time, and while it handles one thing (a periodic
  synchronization runs inside the loop, and so does \<open>handleEvent\<close>) the next waits. The
  debounce timer runs beside the loop: \<^verbatim>\<open>time.AfterFunc\<close> and \<^verbatim>\<open>Reset\<close> set its deadline
  to the instant of the call plus the duration they are given (to the instant of the
  call when that is not positive), and the run time fires a pending timer at its
  deadline, in a goroutine of its own, whatever the loop is doing.

  What the loop receives is an event or an error of the watcher or a tick of the
  ticker. A timed list gives, for each thing received and in the order in which the
  loop takes them up, the instant \<open>a\<close> at which it arrives and the time \<open>b\<close> that the loop
  spends on it. The loop takes it up at the instant \<open>h\<close>, when it has arrived and the
  loop is free, and is done at \<open>h + b\<close>; for an event that is the instant at which
  \<open>resetDebounce\<close> is called, after \<open>handleEvent\<close>.

  A timed state is a state of the run with the instant \<open>clock\<close> from which the loop is
  free, the deadline of the pending timer, if any, and the instants at which the timer
  has fired. \<open>fire_due\<close> lets time pass up to \<open>now\<close>: a timer whose deadline has come
  fires, as \<open>DebounceFires\<close> describes. \<open>arm\<close> is the deadline after a call of
  \<open>resetDebounce\<close> at \<open>now\<close>, read from the call of \<^verbatim>\<open>AfterFunc\<close> or \<^verbatim>\<open>Reset\<close> that it
  made. \<open>handle_event\<close> is the loop's step for an event taken up at \<open>h\<close> and done at
  \<open>fin\<close>: \<open>handleEvent\<close> at \<open>h\<close>, then \<open>resetDebounce\<close> at \<open>fin\<close>, and a timer that comes
  due before either of them fires first. \<open>handle_other\<close> is its step for a watcher
  error or a tick; a timer that comes due while it lasts fires before the next step.
\<close>

datatype received = EventIn Event | ErrorIn | TickIn

fun occ_of :: "received \<Rightarrow> occurrence" where
  "occ_of (EventIn ev) = FsEvent ev"
| "occ_of ErrorIn = FsError"
| "occ_of TickIn = Tick"

record timed_state =
  tstate :: run_state
  clock :: int
  deadline :: "int option"
  fired :: "int list"

definition fire_due :: "env \<Rightarrow> ruleRunner \<Rightarrow> int \<Rightarrow> timed_state \<Rightarrow> timed_state" where
  "fire_due e rr now ts =
     (case deadline ts of
        None \<Rightarrow> ts
      | Some dl \<Rightarrow>
          if dl \<le> now then
            ts\<lparr>tstate := main_loop e rr (tstate ts) [DebounceFires],
               deadline := None, fired := fired ts @ [dl]\<rparr>
          else ts)"

definition arm :: "int \<Rightarrow> run_state \<Rightarrow> int option" where
  "arm now st = map_option (\<lambda>d. now + max 0 d) (last_armed (trace st))"

definition handle_event ::
  "env \<Rightarrow> ruleRunner \<Rightarrow> int \<Rightarrow> int \<Rightarrow> Event \<Rightarrow> timed_state \<Rightarrow> timed_state" where
  "handle_event e rr h fin ev ts =
     (let ts = fire_due e rr h ts;
          ts = ts\<lparr>tstate := handleEvent e rr ev (tstate ts)\<rparr>;
          ts = fire_due e rr fin ts;
          st = resetDebounce rr (Op ev) (tstate ts)
      in ts\<lparr>tstate := st, clock := fin, deadline := arm fin st\<rparr>)"

definition handle_other ::
  "env \<Rightarrow> ruleRunner \<Rightarrow> int \<Rightarrow> int \<Rightarrow> received \<Rightarrow> timed_state \<Rightarrow> timed_state" where
  "handle_other e rr h fin x ts =
     (let ts = fire_due e rr h ts
      in ts\<lparr>tstate := main_loop e rr (tstate ts) [occ_of x], clock := fin\<rparr>)"

fun timed_run ::
  "env \<Rightarrow> ruleRunner \<Rightarrow> timed_state \<Rightarrow> (int \<times> Duration \<times> received) list \<Rightarrow> timed_state" where
  "timed_run e rr ts [] = ts"
| "timed_run e rr ts ((a, b, x) # rest) =
     (let h = max (clock ts) a; fin = h + max 0 b
      in case x of
           EventIn ev \<Rightarrow> timed_run e rr (handle_event e rr h fin ev ts) rest
         | _ \<Rightarrow> timed_run e rr (handle_other e rr h fin x ts) rest)"

text \<open>
  \<open>within_window d c p xs\<close>: when the loop is free from \<open>c\<close> and \<open>resetDebounce\<close> was
  last called at \<open>p\<close>, it is called for each event of \<open>xs\<close> less than \<open>d\<close> after it was
  called for the event before. \<open>last_reset c p xs\<close> is the instant of its last call, and
  \<open>last_arrival q xs\<close> the instant at which the last event of \<open>xs\<close> arrives (\<open>p\<close> and \<open>q\<close>
  when \<open>xs\<close> holds no event).
\<close>

fun within_window :: "Duration \<Rightarrow> int \<Rightarrow> int \<Rightarrow> (int \<times> Duration \<times> received) list \<Rightarrow> bool" where
  "within_window d c p [] = True"
| "within_window d c p ((a, b, x) # xs) =
     (let fin = max c a + max 0 b
      in case x of
           EventIn ev \<Rightarrow> fin < p + d \<and> within_window d fin fin xs
         | _ \<Rightarrow> within_window d fin p xs)"

fun last_reset :: "int \<Rightarrow> int \<Rightarrow> (int \<times> Duration \<times> received) list \<Rightarrow> int" where
  "last_reset c p [] = p"
| "last_reset c p ((a, b, x) # xs) =
     (let fin = max c a + max 0 b
      in case x of
           EventIn ev \<Rightarrow> last_reset fin fin xs
         | _ \<Rightarrow> last_reset fin p xs)"

fun last_arrival :: "int \<Rightarrow> (int \<times> Duration \<times> received) list \<Rightarrow> int" where
  "last_arrival q [] = q"
| "last_arrival q ((a, b, x) # xs) =
     (case x of EventIn ev \<Rightarrow> last_arrival a xs | _ \<Rightarrow> last_arrival q xs)"

fun no_events :: "(int \<times> Duration \<times> received) list \<Rightarrow> bool" where
  "no_events [] = True"
| "no_events ((a, b, x) # xs) = ((case x of EventIn ev \<Rightarrow> False | _ \<Rightarrow> True) \<and> no_events xs)"

lemma timer_starts_append: "timer_starts (xs @ ys) = timer_starts xs + timer_starts ys"
  by (induction xs rule: timer_starts.induct) simp_all

lemma sync_reasons_append: "sync_reasons (xs @ ys) = sync_reasons xs @ sync_reasons ys"
  by (induction xs rule: sync_reasons.induct) simp_all

lemma debounce_syncs_append: "debounce_syncs (xs @ ys) = debounce_syncs xs + debounce_syncs ys"
  by (simp add: debounce_syncs_def sync_reasons_append)

lemma last_armed_append:
  "last_armed (xs @ ys) = (case last_armed ys of Some d \<Rightarrow> Some d | None \<Rightarrow> last_armed xs)"
  by (induction xs) (simp_all split: option.splits)

lemma walk_calls_frame:
  "timer (fst (walk_calls e calls st)) = timer st
   \<and> timer_starts (trace (fst (walk_calls e calls st))) = timer_starts (trace st)
   \<and> sync_reasons (trace (fst (walk_calls e calls st))) = sync_reasons (trace st)"
proof (induction calls arbitrary: st)
  case Nil
  show ?case by simp
next
  case (Cons c calls)
  obtain p d err where c: "c = WalkCall p d err" by (cases c)
  show ?case
    by (simp add: c Cons.IH timer_starts_append sync_reasons_append split: option.splits)
qed

lemma handleEvent_frame:
  "timer (handleEvent e rr ev st) = timer st
   \<and> timer_starts (trace (handleEvent e rr ev st)) = timer_starts (trace st)
   \<and> sync_reasons (trace (handleEvent e rr ev st)) = sync_reasons (trace st)"
  by (simp add: handleEvent_def Let_def addRecursive_def walk_calls_frame timer_starts_append
      sync_reasons_append)

lemma resetDebounce_effect:
  "timer (resetDebounce rr reason st) = Pending
   \<and> timer_starts (trace (resetDebounce rr reason st))
       = timer_starts (trace st) + (if timer st = NoTimer then 1 else 0)
   \<and> sync_reasons (trace (resetDebounce rr reason st)) = sync_reasons (trace st)
   \<and> last_armed (trace (resetDebounce rr reason st)) = Some (DebounceWindow (rule rr))"
  by (simp add: resetDebounce_def timer_starts_append sync_reasons_append last_armed_append)

lemma map_of_WithField: "map_of (WithField l k v) k = Some v"
proof -
  have "map_of (filter (\<lambda>f. fst f \<noteq> k) l) k = None"
    by (induction l) auto
  then show ?thesis
    by (simp add: WithField_def map_add_def)
qed

lemma syncOnce_effect:
  "timer (syncOnce e rr reason st) = timer st
   \<and> timer_starts (trace (syncOnce e rr reason st)) = timer_starts (trace st)
   \<and> sync_reasons (trace (syncOnce e rr reason st))
       = sync_reasons (trace st) @ [Some reason]"
  by (simp add: syncOnce_def RSync_trace timer_starts_append sync_reasons_append
      map_of_WithField)

lemma event_step:
  "timer (main_loop e rr st [FsEvent ev]) = Pending
   \<and> timer_starts (trace (main_loop e rr st [FsEvent ev]))
       = timer_starts (trace st) + (if timer st = NoTimer then 1 else 0)
   \<and> sync_reasons (trace (main_loop e rr st [FsEvent ev])) = sync_reasons (trace st)"
  by (simp add: resetDebounce_effect handleEvent_frame)

lemma fire_step:
  "timer st = Pending \<Longrightarrow>
     timer (main_loop e rr st [DebounceFires]) = Expired
     \<and> timer_starts (trace (main_loop e rr st [DebounceFires])) = timer_starts (trace st)
     \<and> sync_reasons (trace (main_loop e rr st [DebounceFires]))
         = sync_reasons (trace st) @ [Some ''debounce'']"
  by (simp add: syncOnce_effect)

lemma other_step:
  assumes "x = ErrorIn \<or> x = TickIn"
  shows "timer (main_loop e rr st [occ_of x]) = timer st
     \<and> timer_starts (trace (main_loop e rr st [occ_of x])) = timer_starts (trace st)
     \<and> debounce_syncs (trace (main_loop e rr st [occ_of x])) = debounce_syncs (trace st)"
  using assms
  by (auto simp: syncOnce_effect timer_starts_append debounce_syncs_def sync_reasons_append)

lemma timed_run_event:
  "timed_run e rr ts ((a, b, EventIn ev) # rest)
     = timed_run e rr
         (handle_event e rr (max (clock ts) a) (max (clock ts) a + max 0 b) ev ts) rest"
  by (simp add: Let_def)

lemma timed_run_other:
  "x = ErrorIn \<or> x = TickIn \<Longrightarrow>
     timed_run e rr ts ((a, b, x) # rest)
       = timed_run e rr
           (handle_other e rr (max (clock ts) a) (max (clock ts) a + max 0 b) x ts) rest"
  by (auto simp: Let_def)

lemma received_cases: "(\<exists>ev. x = EventIn ev) \<or> x = ErrorIn \<or> x = TickIn"
  by (cases x) simp_all

lemma fire_due_not_due:
  "deadline ts = Some dl \<Longrightarrow> now < dl \<Longrightarrow> fire_due e rr now ts = ts"
  by (simp add: fire_due_def)

lemma fire_due_idle: "deadline ts = None \<Longrightarrow> fire_due e rr now ts = ts"
  by (simp add: fire_due_def)

lemma fire_due_fires:
  assumes "deadline ts = Some dl" and "dl \<le> now" and "timer (tstate ts) = Pending"
  shows "deadline (fire_due e rr now ts) = None
     \<and> fired (fire_due e rr now ts) = fired ts @ [dl]
     \<and> clock (fire_due e rr now ts) = clock ts
     \<and> timer (tstate (fire_due e rr now ts)) = Expired
     \<and> timer_starts (trace (tstate (fire_due e rr now ts))) = timer_starts (trace (tstate ts))
     \<and> debounce_syncs (trace (tstate (fire_due e rr now ts)))
         = debounce_syncs (trace (tstate ts)) + 1"
  using assms fire_step [of "tstate ts" e rr]
  by (simp add: fire_due_def debounce_syncs_def del: main_loop.simps)

lemma handle_event_no_fire:
  assumes "deadline ts = None \<or> (\<exists>dl. deadline ts = Some dl \<and> h \<le> fin \<and> fin < dl)"
  shows "handle_event e rr h fin ev ts
      = ts\<lparr>tstate := resetDebounce rr (Op ev) (handleEvent e rr ev (tstate ts)),
           clock := fin, deadline := Some (fin + max 0 (DebounceWindow (rule rr)))\<rparr>"
proof -
  have a: "fire_due e rr h ts = ts"
    using assms by (auto simp: fire_due_def)
  have b: "fire_due e rr fin (ts\<lparr>tstate := handleEvent e rr ev (tstate ts)\<rparr>)
      = ts\<lparr>tstate := handleEvent e rr ev (tstate ts)\<rparr>"
    using assms by (auto simp: fire_due_def)
  show ?thesis
    by (simp add: handle_event_def Let_def a b arm_def resetDebounce_effect)
qed

lemma handle_event_effect:
  assumes "deadline ts = None \<or> (\<exists>dl. deadline ts = Some dl \<and> h \<le> fin \<and> fin < dl)"
  shows "deadline (handle_event e rr h fin ev ts) = Some (fin + max 0 (DebounceWindow (rule rr)))
     \<and> clock (handle_event e rr h fin ev ts) = fin
     \<and> fired (handle_event e rr h fin ev ts) = fired ts
     \<and> timer (tstate (handle_event e rr h fin ev ts)) = Pending
     \<and> timer_starts (trace (tstate (handle_event e rr h fin ev ts)))
         = timer_starts (trace (tstate ts)) + (if timer (tstate ts) = NoTimer then 1 else 0)
     \<and> debounce_syncs (trace (tstate (handle_event e rr h fin ev ts)))
         = debounce_syncs (trace (tstate ts))"
  by (simp add: handle_event_no_fire [OF assms] resetDebounce_effect handleEvent_frame
      debounce_syncs_def)

lemma handle_other_no_fire:
  assumes "x = ErrorIn \<or> x = TickIn"
    and "deadline ts = None \<or> (\<exists>dl. deadline ts = Some dl \<and> h < dl)"
  shows "deadline (handle_other e rr h fin x ts) = deadline ts
     \<and> clock (handle_other e rr h fin x ts) = fin
     \<and> fired (handle_other e rr h fin x ts) = fired ts
     \<and> timer (tstate (handle_other e rr h fin x ts)) = timer (tstate ts)
     \<and> timer_starts (trace (tstate (handle_other e rr h fin x ts)))
         = timer_starts (trace (tstate ts))
     \<and> debounce_syncs (trace (tstate (handle_other e rr h fin x ts)))
         = debounce_syncs (trace (tstate ts))"
proof -
  have a: "fire_due e rr h ts = ts"
    using assms(2) by (auto simp: fire_due_def)
  show ?thesis
    using other_step [OF assms(1), of e rr "tstate ts"]
    by (simp add: handle_other_def Let_def a del: main_loop.simps)
qed

lemma handle_other_fires:
  assumes "x = ErrorIn \<or> x = TickIn"
    and "deadline ts = Some dl" and "dl \<le> h" and "timer (tstate ts) = Pending"
  shows "deadline (handle_other e rr h fin x ts) = None
     \<and> clock (handle_other e rr h fin x ts) = fin
     \<and> fired (handle_other e rr h fin x ts) = fired ts @ [dl]
     \<and> timer_starts (trace (tstate (handle_other e rr h fin x ts)))
         = timer_starts (trace (tstate ts))
     \<and> debounce_syncs (trace (tstate (handle_other e rr h fin x ts)))
         = debounce_syncs (trace (tstate ts)) + 1"
  using other_step [OF assms(1), of e rr "tstate (fire_due e rr h ts)"]
    fire_due_fires [OF assms(2,3,4), of e rr]
  by (simp add: handle_other_def Let_def del: main_loop.simps)

declare timed_run.simps(2) [simp del]

lemma idle_run:
  assumes "deadline ts = None" and "no_events xs"
  shows "deadline (timed_run e rr ts xs) = None
     \<and> fired (timed_run e rr ts xs) = fired ts
     \<and> timer_starts (trace (tstate (timed_run e rr ts xs))) = timer_starts (trace (tstate ts))
     \<and> debounce_syncs (trace (tstate (timed_run e rr ts xs)))
         = debounce_syncs (trace (tstate ts))"
  using assms
proof (induction xs arbitrary: ts)
  case Nil
  then show ?case by simp
next
  case (Cons y xs)
  obtain a b x where y: "y = (a, b, x)" by (cases y)
  from Cons.prems(2) y have x: "x = ErrorIn \<or> x = TickIn" and ne: "no_events xs"
    by (cases x; simp)+
  let ?h = "max (clock ts) a"
  let ?ts = "handle_other e rr ?h (?h + max 0 b) x ts"
  note o = handle_other_no_fire [OF x, of ts ?h e rr "?h + max 0 b"]
  have d: "deadline ?ts = None"
    using o Cons.prems(1) by simp
  from Cons.IH [OF d ne] o Cons.prems(1) show ?case
    by (simp add: y timed_run_other [OF x])
qed

lemma within_no_events:
  "within_window d c p xs \<Longrightarrow> p + d \<le> c \<Longrightarrow> no_events xs"
proof (induction xs arbitrary: c)
  case Nil
  show ?case by simp
next
  case (Cons y xs)
  obtain a b x where y: "y = (a, b, x)" by (cases y)
  have le: "c \<le> max c a + max 0 b" by simp
  show ?case
  proof (cases x)
    case (EventIn ev)
    with Cons.prems y le show ?thesis by (simp add: Let_def)
  next
    case ErrorIn
    with Cons.prems y le Cons.IH [of "max c a + max 0 b"] show ?thesis
      by (simp add: Let_def)
  next
    case TickIn
    with Cons.prems y le Cons.IH [of "max c a + max 0 b"] show ?thesis
      by (simp add: Let_def)
  qed
qed

lemma last_reset_no_events: "no_events xs \<Longrightarrow> last_reset c p xs = p"
proof (induction xs arbitrary: c)
  case Nil
  show ?case by simp
next
  case (Cons y xs)
  obtain a b x where y: "y = (a, b, x)" by (cases y)
  from Cons show ?case
    by (cases x) (simp_all add: y Let_def)
qed

lemma pending_run:
  assumes "deadline ts = Some (p + max 0 (DebounceWindow (rule rr)))"
    and "timer (tstate ts) = Pending"
    and "within_window (DebounceWindow (rule rr)) (clock ts) p xs"
    and "last_reset (clock ts) p xs + max 0 (DebounceWindow (rule rr)) \<le> T"
  shows "fired (fire_due e rr T (timed_run e rr ts xs))
        = fired ts @ [last_reset (clock ts) p xs + max 0 (DebounceWindow (rule rr))]
     \<and> debounce_syncs (trace (tstate (fire_due e rr T (timed_run e rr ts xs))))
         = debounce_syncs (trace (tstate ts)) + 1
     \<and> timer_starts (trace (tstate (fire_due e rr T (timed_run e rr ts xs))))
         = timer_starts (trace (tstate ts))
     \<and> deadline (fire_due e rr T (timed_run e rr ts xs)) = None"
  using assms
proof (induction xs arbitrary: ts p)
  case Nil
  then show ?case
    using fire_due_fires [of ts "p + max 0 (DebounceWindow (rule rr))" T e rr] by simp
next
  case (Cons y xs)
  let ?d = "DebounceWindow (rule rr)"
  obtain a b x where y: "y = (a, b, x)" by (cases y)
  let ?h = "max (clock ts) a"
  let ?fin = "?h + max 0 b"
  have hf: "?h \<le> ?fin" by simp
  consider (event) ev where "x = EventIn ev" | (other) "x = ErrorIn \<or> x = TickIn"
    using received_cases [of x] by blast
  then show ?case
  proof cases
    case event
    from Cons.prems(3) y event have lt: "?fin < p + ?d" and w: "within_window ?d ?fin ?fin xs"
      by (simp_all add: Let_def)
    from Cons.prems(4) y event have T: "last_reset ?fin ?fin xs + max 0 ?d \<le> T"
      by (simp add: Let_def)
    have nf: "deadline ts = None
        \<or> (\<exists>dl. deadline ts = Some dl \<and> ?h \<le> ?fin \<and> ?fin < dl)"
      using Cons.prems(1) lt hf by simp
    let ?ts = "handle_event e rr ?h ?fin ev ts"
    note he = handle_event_effect [OF nf, of e rr ev]
    have 1: "deadline ?ts = Some (?fin + max 0 ?d)" and 2: "timer (tstate ?ts) = Pending"
      and 3: "clock ?ts = ?fin"
      using he by simp_all
    from Cons.IH [of ?ts ?fin, unfolded 3, OF 1 2 w T] he Cons.prems(2) show ?thesis
      by (simp add: y event timed_run_event Let_def)
  next
    case other
    from Cons.prems(3) y other have w: "within_window ?d ?fin p xs"
      by (auto simp: Let_def)
    from Cons.prems(4) y other have T: "last_reset ?fin p xs + max 0 ?d \<le> T"
      by (auto simp: Let_def)
    have lr: "last_reset (clock ts) p ((a, b, x) # xs) = last_reset ?fin p xs"
      using other by (auto simp: Let_def)
    let ?ts = "handle_other e rr ?h ?fin x ts"
    show ?thesis
    proof (cases "?h < p + max 0 ?d")
      case True
      then have nf: "deadline ts = None \<or> (\<exists>dl. deadline ts = Some dl \<and> ?h < dl)"
        using Cons.prems(1) by simp
      note ho = handle_other_no_fire [OF other nf, of e rr ?fin]
      have 1: "deadline ?ts = Some (p + max 0 ?d)" and 2: "timer (tstate ?ts) = Pending"
        and 3: "clock ?ts = ?fin"
        using ho Cons.prems(1,2) by simp_all
      from Cons.IH [of ?ts p, unfolded 3, OF 1 2 w T] ho show ?thesis
        by (simp only: y timed_run_other [OF other] lr)
    next
      case False
      then have due: "p + max 0 ?d \<le> ?h" by linarith
      note ho = handle_other_fires [OF other Cons.prems(1) due Cons.prems(2), of e rr ?fin]
      have "p + ?d \<le> ?fin" using due hf by linarith
      then have ne: "no_events xs"
        using within_no_events [OF w] by simp
      have 1: "deadline ?ts = None" using ho by simp
      note ir = idle_run [OF 1 ne, of e rr]
      have lr': "last_reset ?fin p xs = p"
        by (rule last_reset_no_events [OF ne])
      have fd: "fire_due e rr T (timed_run e rr ?ts xs) = timed_run e rr ?ts xs"
        using ir by (simp add: fire_due_idle)
      from ir ho show ?thesis
        by (simp only: y timed_run_other [OF other] lr lr' fd)
    qed
  qed
qed

lemma main_loop_one_timer:
  "timer_starts (trace st) = (if timer st = NoTimer then 0 else 1) \<Longrightarrow>
     timer_starts (trace (main_loop e rr st occs))
       = (if timer (main_loop e rr st occs) = NoTimer then 0 else 1)"
proof (induction occs arbitrary: st)
  case Nil
  then show ?case by simp
next
  case (Cons x occs)
  show ?case
  proof (cases x)
    case (FsEvent ev)
    have "timer_starts (trace (main_loop e rr st [FsEvent ev]))
        = (if timer (main_loop e rr st [FsEvent ev]) = NoTimer then 0 else 1)"
      using event_step [of e rr st ev] Cons.prems by (simp del: main_loop.simps)
    then show ?thesis
      using Cons.IH [of "main_loop e rr st [FsEvent ev]"] FsEvent by simp
  next
    case FsError
    then show ?thesis
      using Cons.IH [of "emit (Log (log rr) MsgWatcherError) st"] Cons.prems
      by (simp add: timer_starts_append)
  next
    case Tick
    then show ?thesis
      using Cons.IH [of "syncOnce e rr ''periodic pull'' st"] Cons.IH [of st] Cons.prems
      by (simp add: syncOnce_effect)
  next
    case DebounceFires
    then show ?thesis
      using Cons.IH [of "syncOnce e rr ''debounce'' (st\<lparr>timer := Expired\<rparr>)"] Cons.IH [of st]
        Cons.prems
      by (simp add: syncOnce_effect)
  next
    case Stop
    then show ?thesis
      using Cons.prems by (simp add: deferred_def timer_starts_append)
  qed
qed

lemma run_one_timer: "timer_starts (trace (run e rr occs)) \<le> 1"
proof -
  have walk: "timer (fst (addRecursive e (srcRoot rr) init_state)) = NoTimer"
    "timer_starts (trace (fst (addRecursive e (srcRoot rr) init_state))) = 0"
    by (simp_all add: addRecursive_def walk_calls_frame init_state_simps)
  have le: "timer_starts (trace (main_loop e rr st occs)) \<le> Suc 0"
    if "timer st = NoTimer" "timer_starts (trace st) = 0" for st
    using main_loop_one_timer [of st e rr occs] that by (simp split: if_splits)
  show ?thesis
    using walk
    by (cases "addRecursive e (srcRoot rr) init_state")
      (auto simp: run_def Let_def init_state_simps syncOnce_effect timer_starts_append
        intro!: le split: option.splits)
qed

lemma last_arrival_le_last_reset:
  "q \<le> p \<Longrightarrow> last_arrival q xs \<le> last_reset c p xs"
proof (induction xs arbitrary: q p c)
  case Nil
  then show ?case by simp
next
  case (Cons y xs)
  obtain a b x where y: "y = (a, b, x)" by (cases y)
  have le: "a \<le> max c a + max 0 b" by simp
  show ?case
  proof (cases x)
    case (EventIn ev)
    with y Cons.IH [OF le, of "max c a + max 0 b"] show ?thesis
      by (simp add: Let_def)
  next
    case ErrorIn
    with y Cons.IH [OF Cons.prems, of "max c a + max 0 b"] show ?thesis
      by (simp add: Let_def)
  next
    case TickIn
    with y Cons.IH [OF Cons.prems, of "max c a + max 0 b"] show ?thesis
      by (simp add: Let_def)
  qed
qed

lemma handle_event_fires:
  assumes "deadline ts = Some dl" and "dl \<le> h" and "timer (tstate ts) = Pending"
  shows "deadline (handle_event e rr h fin ev ts) = Some (fin + max 0 (DebounceWindow (rule rr)))
     \<and> clock (handle_event e rr h fin ev ts) = fin
     \<and> fired (handle_event e rr h fin ev ts) = fired ts @ [dl]
     \<and> timer (tstate (handle_event e rr h fin ev ts)) = Pending
     \<and> timer_starts (trace (tstate (handle_event e rr h fin ev ts)))
         = timer_starts (trace (tstate ts))
     \<and> debounce_syncs (trace (tstate (handle_event e rr h fin ev ts)))
         = debounce_syncs (trace (tstate ts)) + 1"
proof -
  let ?t1 = "fire_due e rr h ts"
  note f = fire_due_fires [OF assms, of e rr]
  let ?t2 = "?t1\<lparr>tstate := handleEvent e rr ev (tstate ?t1)\<rparr>"
  have i: "fire_due e rr fin ?t2 = ?t2"
    using f by (simp add: fire_due_idle)
  have "handle_event e rr h fin ev ts
      = ?t2\<lparr>tstate := resetDebounce rr (Op ev) (tstate ?t2), clock := fin,
            deadline := arm fin (resetDebounce rr (Op ev) (tstate ?t2))\<rparr>"
    by (simp only: handle_event_def Let_def i)
  then show ?thesis
    using f by (simp add: arm_def resetDebounce_effect handleEvent_frame debounce_syncs_def)
qed

text \<open>
  The runner of the README's rule with direction \<^verbatim>\<open>full\<close>, a debounce window of three
  seconds and a poll interval of a minute; the timed state once \<open>run\<close> has set up the
  watcher and the ticker and waits in its loop; and an event on a path that the rule
  does not ignore.
\<close>

definition debounce_runner :: ruleRunner where
  "debounce_runner =
     readme_runner\<lparr>rule := readme_rule\<lparr>Directions := [''full''],
       DebounceWindow := 3 * Second, RemotePollWindow := 60 * Second\<rparr>\<rparr>"

definition watching :: timed_state where
  "watching = \<lparr>tstate = run readme_env debounce_runner [], clock = 0, deadline = None, fired = []\<rparr>"

definition chapter_event :: Event where
  "chapter_event = \<lparr>Name = ''/home/user/Projects/book/ch1.txt'', Op = Write\<rparr>"

lemma chapter_event_not_ignored:
  "Rel (srcRoot debounce_runner) (Name chapter_event) = Inr ''ch1.txt''
   \<and> \<not> Match ''ch1.txt'' (ign debounce_runner)"
  by (simp add: debounce_runner_def readme_runner_def chapter_event_def Rel_def Clean_def
      elements_def tmp_regexp_def cache_regexp_def MatchString_def runes_of_ascii runes_of_Nil
      byte_def)

lemma debounce_runner_simps:
  "srcRoot debounce_runner = ''/home/user/Projects/book''"
  "Directions (rule debounce_runner) = [''full'']"
  "DebounceWindow (rule debounce_runner) = 3 * Second"
  "RemotePollWindow (rule debounce_runner) = 60 * Second"
  by (simp_all add: debounce_runner_def readme_runner_def)

lemma watching_simps:
  "deadline watching = None"
  "clock watching = 0"
  "fired watching = []"
  "timer (tstate watching) = NoTimer"
  "ticker (tstate watching) = Some (60 * Second)"
  "timer_starts (trace (tstate watching)) = 0"
  "debounce_syncs (trace (tstate watching)) = 0"
  by (simp_all add: watching_def run_def readme_env_simps debounce_runner_simps
      addRecursive_readme Full_def RemoteToLocal_def Second_def syncOnce_effect
      init_state_simps timer_starts_append debounce_syncs_def sync_reasons_append)

text \<open>When the timer does not fire meanwhile, the timed step of an event is the step
  of the main loop.\<close>

lemma handle_event_loop_step:
  assumes "deadline ts = None \<or> (\<exists>dl. deadline ts = Some dl \<and> h \<le> fin \<and> fin < dl)"
  shows "tstate (handle_event e rr h fin ev ts) = main_loop e rr (tstate ts) [FsEvent ev]"
  by (simp add: handle_event_no_fire [OF assms])

text \<open>
  C2, as amended. A burst begins with an event that finds no timer pending; \<open>r\<close> is the
  instant at which the loop calls \<open>resetDebounce\<close> for it. The burst goes on with \<open>xs\<close>:
  events, with ticks and watcher errors among them, such that \<open>resetDebounce\<close> is called
  for each event less than a debounce window after it was called for the event before.
  When time has passed up to \<open>T\<close>, at least a window after the last of these calls, the
  timer has fired exactly once since the burst began, a window after the last call (at
  the last call when the window is not positive), which is no earlier than the window's
  duration after the last event arrived; exactly one synchronization tagged
  \<^verbatim>\<open>debounce\<close> has run; and the burst has created a timer only if there was none. A run
  creates at most one debounce timer, whatever happens, and an event that finds the
  timer pending arms it again with \<^verbatim>\<open>Reset\<close> and creates none.
\<close>

theorem debounce_coalesces_burst:
  assumes "deadline ts = None" and "timer (tstate ts) \<noteq> Pending"
    and "r = max (clock ts) a + max 0 b"
    and "within_window (DebounceWindow (rule rr)) r r xs"
    and "last_reset r r xs + max 0 (DebounceWindow (rule rr)) \<le> T"
  shows "fired (fire_due e rr T (timed_run e rr ts ((a, b, EventIn ev) # xs)))
        = fired ts @ [last_reset r r xs + max 0 (DebounceWindow (rule rr))]
     \<and> last_arrival a xs + DebounceWindow (rule rr)
         \<le> last_reset r r xs + max 0 (DebounceWindow (rule rr))
     \<and> debounce_syncs (trace (tstate (fire_due e rr T
           (timed_run e rr ts ((a, b, EventIn ev) # xs)))))
         = debounce_syncs (trace (tstate ts)) + 1
     \<and> timer_starts (trace (tstate (fire_due e rr T
           (timed_run e rr ts ((a, b, EventIn ev) # xs)))))
         = timer_starts (trace (tstate ts)) + (if timer (tstate ts) = NoTimer then 1 else 0)
     \<and> timer_starts (trace (run e rr occs)) \<le> 1
     \<and> (timer st = Pending \<longrightarrow>
          trace (resetDebounce rr reason st) = trace st @ [TimerReset (DebounceWindow (rule rr))]
          \<and> timer (resetDebounce rr reason st) = Pending)"
proof -
  let ?d = "DebounceWindow (rule rr)"
  let ?h = "max (clock ts) a"
  let ?ts = "handle_event e rr ?h r ev ts"
  have nf: "deadline ts = None \<or> (\<exists>dl. deadline ts = Some dl \<and> ?h \<le> r \<and> r < dl)"
    using assms(1) by simp
  note he = handle_event_effect [OF nf, of e rr ev]
  have 1: "deadline ?ts = Some (r + max 0 ?d)" and 2: "timer (tstate ?ts) = Pending"
    and 3: "clock ?ts = r"
    using he by simp_all
  note p = pending_run [of ?ts r rr xs T e, unfolded 3, OF 1 2 assms(4) assms(5)]
  have step: "timed_run e rr ts ((a, b, EventIn ev) # xs) = timed_run e rr ?ts xs"
    by (simp add: timed_run_event assms(3))
  have "a \<le> r" using assms(3) by simp
  then have arr: "last_arrival a xs \<le> last_reset r r xs"
    by (rule last_arrival_le_last_reset)
  have "last_arrival a xs + ?d \<le> last_reset r r xs + max 0 ?d"
    using arr by simp
  moreover have "timer_starts (trace (run e rr occs)) \<le> 1"
    by (rule run_one_timer)
  moreover have "timer st = Pending \<longrightarrow>
          trace (resetDebounce rr reason st) = trace st @ [TimerReset ?d]
          \<and> timer (resetDebounce rr reason st) = Pending"
    by (simp add: resetDebounce_def)
  ultimately show ?thesis
    using p he by (simp only: step)
qed

text \<open>
  C2 as stated fails: events that arrive within one window of each other need not be
  handled within one window. Below, the window is three seconds and two events arrive
  one second apart, at 60 and at 61 seconds, but the first tick of the ticker arrives
  with the first event and the periodic synchronization keeps the loop busy for ten
  seconds. The timer fires at 63 seconds; the loop takes up the second event at 70
  seconds and arms the timer again; and a second synchronization tagged \<^verbatim>\<open>debounce\<close>
  follows at 73 seconds.
\<close>

theorem debounce_burst_two_syncs_counterexample:
  "\<not> Match ''ch1.txt'' (ign debounce_runner)
   \<and> 61 * Second - 60 * Second < DebounceWindow (rule debounce_runner)
   \<and> fired (fire_due readme_env debounce_runner (80 * Second)
        (timed_run readme_env debounce_runner watching
           [(60 * Second, 0, EventIn chapter_event), (60 * Second, 10 * Second, TickIn),
            (61 * Second, 0, EventIn chapter_event)]))
       = [63 * Second, 73 * Second]
   \<and> debounce_syncs (trace (tstate (fire_due readme_env debounce_runner (80 * Second)
        (timed_run readme_env debounce_runner watching
           [(60 * Second, 0, EventIn chapter_event), (60 * Second, 10 * Second, TickIn),
            (61 * Second, 0, EventIn chapter_event)]))))
       = 2"
proof -
  let ?e = readme_env and ?rr = debounce_runner
  have d: "DebounceWindow (rule debounce_runner) = 3 * Second"
    by (simp add: debounce_runner_simps)
  let ?t1 = "handle_event ?e ?rr (60 * Second) (60 * Second) chapter_event watching"
  let ?t2 = "handle_other ?e ?rr (60 * Second) (70 * Second) TickIn ?t1"
  let ?t3 = "handle_event ?e ?rr (70 * Second) (70 * Second) chapter_event ?t2"
  have nf1: "deadline watching = None
      \<or> (\<exists>dl. deadline watching = Some dl \<and> 60 * Second \<le> 60 * Second \<and> 60 * Second < dl)"
    by (simp add: watching_simps)
  note e1 = handle_event_effect [OF nf1, of ?e ?rr chapter_event]
  have d1: "deadline ?t1 = Some (63 * Second)" "timer (tstate ?t1) = Pending"
    "clock ?t1 = 60 * Second" "fired ?t1 = []" "debounce_syncs (trace (tstate ?t1)) = 0"
    using e1 by (simp_all add: d watching_simps Second_def)
  have nf2: "deadline ?t1 = None \<or> (\<exists>dl. deadline ?t1 = Some dl \<and> 60 * Second < dl)"
    using d1 by (simp add: Second_def)
  note e2 = handle_other_no_fire [OF _ nf2, of TickIn ?e ?rr "70 * Second"]
  have d2: "deadline ?t2 = Some (63 * Second)" "timer (tstate ?t2) = Pending"
    "clock ?t2 = 70 * Second" "fired ?t2 = []" "debounce_syncs (trace (tstate ?t2)) = 0"
    using e2 d1 by simp_all
  have due: "63 * Second \<le> 70 * Second" by (simp add: Second_def)
  note e3 = handle_event_fires [OF d2(1) due d2(2), of ?e ?rr "70 * Second" chapter_event]
  have d3: "deadline ?t3 = Some (73 * Second)" "timer (tstate ?t3) = Pending"
    "fired ?t3 = [63 * Second]" "debounce_syncs (trace (tstate ?t3)) = 1"
    using e3 d2 by (simp_all add: d Second_def)
  have run: "timed_run ?e ?rr watching
           [(60 * Second, 0, EventIn chapter_event), (60 * Second, 10 * Second, TickIn),
            (61 * Second, 0, EventIn chapter_event)] = ?t3"
    using d1(3) d2(3) by (simp add: timed_run_event timed_run_other watching_simps Second_def)
  have due2: "73 * Second \<le> 80 * Second" by (simp add: Second_def)
  note f = fire_due_fires [OF d3(1) due2 d3(2), of ?e ?rr]
  have "fired (fire_due ?e ?rr (80 * Second) ?t3) = [63 * Second, 73 * Second]"
    "debounce_syncs (trace (tstate (fire_due ?e ?rr (80 * Second) ?t3))) = 2"
    using f d3 by simp_all
  moreover have "61 * Second - 60 * Second < DebounceWindow (rule debounce_runner)"
    by (simp add: d Second_def)
  ultimately show ?thesis
    using chapter_event_not_ignored by (simp only: run) simp
qed

theorem debounce_coalesces_burst_witness:
  "\<not> Match ''ch1.txt'' (ign debounce_runner)
   \<and> deadline watching = None \<and> timer (tstate watching) \<noteq> Pending
   \<and> within_window (DebounceWindow (rule debounce_runner)) (60 * Second) (60 * Second)
        [(60 * Second, Second, TickIn), (61 * Second, 0, EventIn chapter_event)]
   \<and> last_reset (60 * Second) (60 * Second)
        [(60 * Second, Second, TickIn), (61 * Second, 0, EventIn chapter_event)]
       = 61 * Second
   \<and> fired (fire_due readme_env debounce_runner (70 * Second)
        (timed_run readme_env debounce_runner watching
           [(60 * Second, 0, EventIn chapter_event), (60 * Second, Second, TickIn),
            (61 * Second, 0, EventIn chapter_event)]))
       = [64 * Second]
   \<and> debounce_syncs (trace (tstate (fire_due readme_env debounce_runner (70 * Second)
        (timed_run readme_env debounce_runner watching
           [(60 * Second, 0, EventIn chapter_event), (60 * Second, Second, TickIn),
            (61 * Second, 0, EventIn chapter_event)]))))
       = 1
   \<and> timer_starts (trace (tstate (fire_due readme_env debounce_runner (70 * Second)
        (timed_run readme_env debounce_runner watching
           [(60 * Second, 0, EventIn chapter_event), (60 * Second, Second, TickIn),
            (61 * Second, 0, EventIn chapter_event)]))))
       = 1"
proof -
  have d: "DebounceWindow (rule debounce_runner) = 3 * Second"
    by (simp add: debounce_runner_simps)
  have a: "deadline watching = None" "timer (tstate watching) \<noteq> Pending"
    by (simp_all add: watching_simps)
  have r: "60 * Second = max (clock watching) (60 * Second) + max 0 0"
    by (simp add: watching_simps Second_def)
  have w: "within_window (DebounceWindow (rule debounce_runner)) (60 * Second) (60 * Second)
        [(60 * Second, Second, TickIn), (61 * Second, 0, EventIn chapter_event)]"
    by (simp add: d Second_def)
  have l: "last_reset (60 * Second) (60 * Second)
        [(60 * Second, Second, TickIn), (61 * Second, 0, EventIn chapter_event)]
      = 61 * Second"
    by (simp add: Second_def)
  have T: "last_reset (60 * Second) (60 * Second)
        [(60 * Second, Second, TickIn), (61 * Second, 0, EventIn chapter_event)]
        + max 0 (DebounceWindow (rule debounce_runner)) \<le> 70 * Second"
    by (simp add: l d) (simp add: Second_def)
  have s: "61 * Second + max 0 (3 * Second) = 64 * Second"
    by (simp add: Second_def)
  from debounce_coalesces_burst [OF a r w T, of readme_env chapter_event] a w l
    chapter_event_not_ignored
  show ?thesis by (simp add: watching_simps d s)
qed

end
